theory Spec2Isabelle
  imports
    Complex_Main
    "HOL-Library.Char_ord"
    "HOL-Library.List_Lexorder"
    "HOL-Library.Product_Lexorder"
    "HOL-Library.Multiset"
    "HOL-Library.Log_Nat"
begin

section \<open>Go library functions used by the indexer\<close>

text \<open>
  Go strings are byte strings; \<^typ>\<open>string\<close> is a list of 8-bit characters, compared
  bytewise (\<open>Char_ord\<close>, \<open>List_Lexorder\<close>) as Go's \<open><\<close> on strings does.
  Go's \<open>error\<close> values are kept by their message.
\<close>

datatype error = Err string

fun Error :: "error \<Rightarrow> string" where
  "Error (Err msg) = msg"

text \<open>\<open>strings.Split(s, sep)\<close> for a one-byte separator: always at least one part.\<close>

fun strings_Split :: "char \<Rightarrow> string \<Rightarrow> string list" where
  "strings_Split sep [] = [[]]"
| "strings_Split sep (c # cs) =
     (if c = sep then [] # strings_Split sep cs
      else (case strings_Split sep cs of
              [] \<Rightarrow> [[c]]
            | p # ps \<Rightarrow> (c # p) # ps))"

text \<open>\<open>strings.Join(parts, sep)\<close>.\<close>

fun strings_Join :: "string list \<Rightarrow> string \<Rightarrow> string" where
  "strings_Join [] sep = []"
| "strings_Join [p] sep = p"
| "strings_Join (p # q # ps) sep = p @ sep @ strings_Join (q # ps) sep"

text \<open>
  \<open>strings.TrimSpace(s) == ""\<close>: every rune of \<open>s\<close> is white space in the sense of
  \<open>unicode.IsSpace\<close>. The runes are read off the UTF-8 bytes: the six ASCII spaces,
  U+0085 and U+00A0 (two bytes), U+1680, U+2000 to U+200A, U+2028, U+2029, U+202F, U+205F
  and U+3000 (three bytes). Any other byte sequence holds a rune that is not a space.
\<close>

definition is_ascii_space :: "char \<Rightarrow> bool" where
  "is_ascii_space c \<longleftrightarrow> c \<in> set [CHR 0x09, CHR 0x0A, CHR 0x0B, CHR 0x0C, CHR 0x0D, CHR 0x20]"

fun trims_to_empty :: "string \<Rightarrow> bool" where
  "trims_to_empty [] = True"
| "trims_to_empty (c # cs) =
     (if is_ascii_space c then trims_to_empty cs
      else if c = CHR 0xC2 then
        (case cs of
           d # r \<Rightarrow> (d = CHR 0x85 \<or> d = CHR 0xA0) \<and> trims_to_empty r
         | [] \<Rightarrow> False)
      else if c = CHR 0xE1 then
        (case cs of
           d1 # d2 # r \<Rightarrow> d1 = CHR 0x9A \<and> d2 = CHR 0x80 \<and> trims_to_empty r
         | _ \<Rightarrow> False)
      else if c = CHR 0xE2 then
        (case cs of
           d1 # d2 # r \<Rightarrow>
             ((d1 = CHR 0x80 \<and> ((CHR 0x80 \<le> d2 \<and> d2 \<le> CHR 0x8A) \<or> d2 = CHR 0xA8
                                 \<or> d2 = CHR 0xA9 \<or> d2 = CHR 0xAF))
              \<or> (d1 = CHR 0x81 \<and> d2 = CHR 0x9F)) \<and> trims_to_empty r
         | _ \<Rightarrow> False)
      else if c = CHR 0xE3 then
        (case cs of
           d1 # d2 # r \<Rightarrow> d1 = CHR 0x80 \<and> d2 = CHR 0x80 \<and> trims_to_empty r
         | _ \<Rightarrow> False)
      else False)"

text \<open>\<open>fmt.Sprintf("%d", n)\<close> for a Go \<open>int\<close>.\<close>

definition digit_char :: "nat \<Rightarrow> char" where
  "digit_char d = ''0123456789'' ! d"

fun format_nat :: "nat \<Rightarrow> string" where
  "format_nat n =
     (if n < 10 then [digit_char n] else format_nat (n div 10) @ [digit_char (n mod 10)])"

declare format_nat.simps [simp del]

definition format_int :: "int \<Rightarrow> string" where
  "format_int i = (if i < 0 then CHR ''-'' # format_nat (nat (- i)) else format_nat (nat i))"

text \<open>
  \<open>strconv.Atoi\<close> on a 64-bit platform: an optional sign, then one or more decimal digits;
  \<open>None\<close> is the syntax or range error.
\<close>

definition digit_val :: "char \<Rightarrow> nat option" where
  "digit_val c =
     map_of [(CHR ''0'', 0), (CHR ''1'', 1), (CHR ''2'', 2), (CHR ''3'', 3), (CHR ''4'', 4),
             (CHR ''5'', 5), (CHR ''6'', 6), (CHR ''7'', 7), (CHR ''8'', 8), (CHR ''9'', 9)] c"

fun parse_digits :: "nat \<Rightarrow> string \<Rightarrow> nat option" where
  "parse_digits acc [] = Some acc"
| "parse_digits acc (c # cs) =
     (case digit_val c of None \<Rightarrow> None | Some d \<Rightarrow> parse_digits (acc * 10 + d) cs)"

definition Atoi :: "string \<Rightarrow> int option" where
  "Atoi s =
     (let neg = (s \<noteq> [] \<and> hd s = CHR ''-'');
          ds = (if s \<noteq> [] \<and> (hd s = CHR ''-'' \<or> hd s = CHR ''+'') then tl s else s)
      in if ds = [] then None
         else (case parse_digits 0 ds of
                 None \<Rightarrow> None
               | Some v \<Rightarrow>
                   (let r = (if neg then - int v else int v)
                    in if r < - (2 ^ 63) \<or> 2 ^ 63 - 1 < r then None else Some r)))"

text \<open>
  \<open>float64(n)\<close> for an \<open>int\<close>: exact below \<open>2^53\<close>, otherwise rounded to 53 significant
  bits, ties to even. The value of the float is returned as a real number.
\<close>

definition float64_of_int :: "int \<Rightarrow> real" where
  "float64_of_int n =
     (let a = \<bar>n\<bar> in
      if a < 2 ^ 53 then of_int n
      else (let e = nat (bitlen a) - 53;
                q = a div 2 ^ e;
                r = a mod 2 ^ e;
                h = 2 ^ (e - 1);
                q' = (if h < r \<or> (r = h \<and> odd q) then q + 1 else q)
            in of_int (sgn n * q' * 2 ^ e)))"

text \<open>\<open>filepath.Ext\<close> and \<open>filepath.Base\<close> with \<open>/\<close> as the separator.\<close>

fun ext_scan :: "string \<Rightarrow> string \<Rightarrow> string" where
  "ext_scan acc [] = []"
| "ext_scan acc (c # cs) =
     (if c = CHR ''/'' then []
      else if c = CHR ''.'' then c # acc
      else ext_scan (c # acc) cs)"

definition filepath_Ext :: "string \<Rightarrow> string" where
  "filepath_Ext path = ext_scan [] (rev path)"

definition filepath_Base :: "string \<Rightarrow> string" where
  "filepath_Base path =
     (if path = [] then ''.''
      else (let stripped = rev (dropWhile (\<lambda>c. c = CHR ''/'') (rev path));
                elem = rev (takeWhile (\<lambda>c. c \<noteq> CHR ''/'') (rev stripped))
            in if elem = [] then ''/'' else elem))"

text \<open>
  \<open>filepath.Clean\<close> with \<open>/\<close> as the separator, on the elements of the path: empty
  elements and \<open>.\<close> are dropped, \<open>..\<close> removes the element before it (at the start of a
  rooted path it is dropped, at the start of a relative path it is kept). \<open>out\<close> holds the
  elements written so far.
\<close>

fun clean_elems :: "bool \<Rightarrow> string list \<Rightarrow> string list \<Rightarrow> string list" where
  "clean_elems rooted out [] = out"
| "clean_elems rooted out (e # es) =
     (if e = [] \<or> e = ''.'' then clean_elems rooted out es
      else if e = ''..'' then
        (if out \<noteq> [] \<and> last out \<noteq> ''..'' then clean_elems rooted (butlast out) es
         else if rooted then clean_elems rooted out es
         else clean_elems rooted (out @ [e]) es)
      else clean_elems rooted (out @ [e]) es)"

definition filepath_Clean :: "string \<Rightarrow> string" where
  "filepath_Clean path =
     (if path = [] then ''.''
      else (let rooted = (hd path = CHR ''/'');
                body = strings_Join (clean_elems rooted [] (strings_Split CHR ''/'' path)) ''/''
            in if rooted then CHR ''/'' # body
               else if body = [] then ''.'' else body))"

text \<open>\<open>filepath.Join(dir, name)\<close>: empty elements are ignored, the result is cleaned.\<close>

definition filepath_Join :: "string \<Rightarrow> string \<Rightarrow> string" where
  "filepath_Join dir name =
     (if dir \<noteq> [] then filepath_Clean (dir @ ''/'' @ name)
      else if name \<noteq> [] then filepath_Clean name
      else [])"

definition strings_HasPrefix :: "string \<Rightarrow> string \<Rightarrow> bool" where
  "strings_HasPrefix s pre \<longleftrightarrow> take (length pre) s = pre"

section \<open>ResultDeduplicator (rag/vectordb.go)\<close>

text \<open>
  A search hit. \<open>Score\<close> is a \<open>float32\<close> that deduplication never inspects; it is kept as
  the real number it denotes.
\<close>

record SearchResult =
  ID :: string
  Score :: real
  FilePath :: string
  Content :: string
  LineStart :: int
  LineEnd :: int
  Language :: string

text \<open>The key \<open>fmt.Sprintf("%s:%d-%d", FilePath, LineStart, LineEnd)\<close>.\<close>

definition result_key :: "SearchResult \<Rightarrow> string" where
  "result_key result =
     FilePath result @ '':'' @ format_int (LineStart result) @ ''-'' @ format_int (LineEnd result)"

text \<open>\<open>parseRangeKey\<close>: \<open>None\<close> is the nil slice; the file slot is the constant 0.\<close>

definition parseRangeKey :: "string \<Rightarrow> int list option" where
  "parseRangeKey key =
     (case strings_Split CHR '':'' key of
        [p0, p1] \<Rightarrow>
          (case strings_Split CHR ''-'' p1 of
             [r0, r1] \<Rightarrow>
               (case (Atoi r0, Atoi r1) of
                  (Some start, Some end') \<Rightarrow> Some [0, start, end']
                | _ \<Rightarrow> None)
           | _ \<Rightarrow> None)
      | _ \<Rightarrow> None)"

text \<open>
  \<open>isOverlapping\<close>. The parsed bounds lie in \<open>[0, 2^63)\<close>, so the differences do not wrap.
  Multiplying a float by 0.5 is exact, so the comparison is the one of the real values.
\<close>

definition isOverlapping :: "string \<Rightarrow> string \<Rightarrow> bool" where
  "isOverlapping key1 key2 =
     (case (parseRangeKey key1, parseRangeKey key2) of
        (Some parts1, Some parts2) \<Rightarrow>
          if parts1 ! 0 \<noteq> parts2 ! 0 then False
          else (let start1 = parts1 ! 1; end1 = parts1 ! 2;
                    start2 = parts2 ! 1; end2 = parts2 ! 2;
                    overlapStart = max start1 start2;
                    overlapEnd = min end1 end2
                in if overlapStart \<ge> overlapEnd then False
                   else (let overlap = overlapEnd - overlapStart;
                             range1 = end1 - start1;
                             range2 = end2 - start2
                         in float64_of_int overlap > float64_of_int range1 * 0.5
                            \<or> float64_of_int overlap > float64_of_int range2 * 0.5))
      | _ \<Rightarrow> False)"

text \<open>
  The loop of \<open>deduplicateResults\<close>: \<open>seen\<close> is the Go map of keys, \<open>unique\<close> the slice
  built by \<open>append\<close>. Ranging over the map with a \<open>break\<close> at the first overlapping key
  computes whether some key of the map overlaps.
\<close>

fun dedup_loop ::
  "(string \<rightharpoonup> bool) \<Rightarrow> SearchResult list \<Rightarrow> SearchResult list \<Rightarrow> SearchResult list" where
  "dedup_loop seen unique [] = unique"
| "dedup_loop seen unique (result # rest) =
     (let key = result_key result;
          isDuplicate = (\<exists>existingKey \<in> dom seen. isOverlapping existingKey key)
      in if \<not> isDuplicate then dedup_loop (seen(key \<mapsto> True)) (unique @ [result]) rest
         else dedup_loop seen unique rest)"

definition deduplicateResults :: "SearchResult list \<Rightarrow> SearchResult list" where
  "deduplicateResults results =
     (if length results = 0 then results else dedup_loop Map.empty [] results)"

text \<open>A hit with the given file, score and line range, for the concrete cases below.\<close>

definition mk_hit :: "string \<Rightarrow> real \<Rightarrow> int \<Rightarrow> int \<Rightarrow> SearchResult" where
  "mk_hit file score start end' =
     \<lparr>ID = [], Score = score, FilePath = file, Content = [],
      LineStart = start, LineEnd = end', Language = ''go''\<rparr>"

lemmas dedup_eval =
  mk_hit_def result_key_def format_int_def format_nat.simps digit_char_def
  isOverlapping_def parseRangeKey_def Atoi_def digit_val_def float64_of_int_def
  deduplicateResults_def Let_def

section \<open>Chunker (\<open>chunkFile\<close>)\<close>

record CodeChunk =
  FilePath :: string
  Content :: string
  LineStart :: int
  LineEnd :: int
  Language :: string

definition detectLanguage :: "string \<Rightarrow> string" where
  "detectLanguage filePath =
     (let ext = filepath_Ext filePath in
      if ext = ''.go'' then ''go''
      else if ext = ''.py'' then ''python''
      else if ext = ''.js'' then ''javascript''
      else if ext = ''.ts'' then ''typescript''
      else if ext = ''.tf'' then ''terraform''
      else if ext = ''.yaml'' \<or> ext = ''.yml'' then ''yaml''
      else if ext = ''.md'' then ''markdown''
      else if ext = ''.json'' then ''json''
      else if ext = ''.sh'' then ''bash''
      else if ext = ''.rs'' then ''rust''
      else if ext = ''.java'' then ''java''
      else if ext = ''.c'' \<or> ext = ''.h'' then ''c''
      else if ext = ''.cpp'' \<or> ext = ''.hpp'' \<or> ext = ''.cc'' then ''cpp''
      else ''unknown'')"

definition chunkSize :: nat where
  "chunkSize = 50"

definition overlap :: nat where
  "overlap = 10"

text \<open>
  The loop of \<open>chunkFile\<close> from index \<open>i\<close> with the chunks appended so far. A window whose
  text trims to nothing takes the \<open>continue\<close>: no chunk, and no test for the end of file.
\<close>

function chunk_loop :: "string \<Rightarrow> string list \<Rightarrow> nat \<Rightarrow> CodeChunk list \<Rightarrow> CodeChunk list" where
  "chunk_loop filePath lines i chunks =
     (if i < length lines then
        (let end' = (if i + chunkSize > length lines then length lines else i + chunkSize);
             chunkText = strings_Join (take (end' - i) (drop i lines)) [CHR 0x0A]
         in if trims_to_empty chunkText then
              chunk_loop filePath lines (i + (chunkSize - overlap)) chunks
            else
              (let chunks' = chunks @
                     [\<lparr>FilePath = filePath, Content = chunkText, LineStart = int i + 1,
                       LineEnd = int end', Language = detectLanguage filePath\<rparr>]
               in if end' = length lines then chunks'
                  else chunk_loop filePath lines (i + (chunkSize - overlap)) chunks'))
      else chunks)"
  by pat_completeness auto
termination
  by (relation "measure (\<lambda>(filePath, lines, i, chunks). length lines - i)")
     (auto simp: chunkSize_def overlap_def)

declare chunk_loop.simps [simp del]

text \<open>The chunks of a file's text: the body of \<open>chunkFile\<close> after the read.\<close>

definition chunk_text :: "string \<Rightarrow> string \<Rightarrow> CodeChunk list" where
  "chunk_text filePath text = chunk_loop filePath (strings_Split (CHR 0x0A) text) 0 []"

section \<open>FileCollector (\<open>collectFiles\<close>)\<close>

text \<open>
  The tree under a root path as \<open>filepath.Walk\<close> meets it: a regular file with its size,
  a directory with its entries, or an entry whose \<open>Lstat\<close> or \<open>ReadDir\<close> fails. \<open>Walk\<close>
  visits the entries of a directory in lexical order; the model visits them in the order
  of the list, whatever it is.
\<close>

datatype fs_node =
    RegularFile nat
  | Directory "(string \<times> fs_node) list"
  | Unreadable error

record fileWithPriority =
  path :: string
  priority :: int

definition priorityDirs :: "string \<rightharpoonup> int" where
  "priorityDirs =
     map_of [(''middleware'', 1), (''api'', 2), (''src'', 3), (''lib'', 4), (''core'', 5),
             (''utils'', 6), (''services'', 7), (''models'', 8), (''routes'', 9),
             (''handlers'', 10)]"

definition skipDirs :: "string \<Rightarrow> bool" where
  "skipDirs dirName \<longleftrightarrow>
     dirName \<in> set [''node_modules'', ''.git'', ''vendor'', ''__pycache__'', ''.venv'', ''venv'',
                    ''dist'', ''build'', ''coverage'', ''test'', ''tests'', ''__tests__'', ''spec'',
                    ''specs'', ''mocks'', ''fixtures'', ''.next'', ''.nuxt'', ''target'', ''bin'']"

fun contains :: "string list \<Rightarrow> string \<Rightarrow> bool" where
  "contains [] item = False"
| "contains (s # slice) item = (if s = item then True else contains slice item)"

text \<open>The priority loop: the first part found in the table decides, 99 when none is.\<close>

fun path_priority :: "string list \<Rightarrow> int" where
  "path_priority [] = 99"
| "path_priority (part # pathParts) =
     (case priorityDirs part of Some p \<Rightarrow> p | None \<Rightarrow> path_priority pathParts)"

text \<open>
  The walk with the callback of \<open>collectFiles\<close> inlined; \<open>walk_entries\<close> is the loop of
  \<open>filepath.Walk\<close> over the entries of a directory. \<open>rel\<close> holds the names from the root
  down to the entry: the parts of \<open>filepath.Rel(rootPath, filePath)\<close> split at the separator
  (\<open>["."]\<close> for the root itself). The root is passed to the callback as it is given; child
  paths are \<open>filepath.Join(dir, name)\<close>. The callback returns \<open>SkipDir\<close> for a directory
  to prune and the error it is handed otherwise; the first error ends the walk and
  discards the files collected so far.
\<close>

fun walk :: "string list \<Rightarrow> string \<Rightarrow> string list \<Rightarrow> fs_node \<Rightarrow> error + fileWithPriority list"
  and walk_entries ::
    "string list \<Rightarrow> string \<Rightarrow> string list \<Rightarrow> (string \<times> fs_node) list
       \<Rightarrow> error + fileWithPriority list" where
  "walk extensions filePath rel (Unreadable err) = Inl err"
| "walk extensions filePath rel (Directory entries) =
     (if skipDirs (filepath_Base filePath) \<or> strings_HasPrefix (filepath_Base filePath) ''.''
      then Inr []
      else walk_entries extensions filePath rel entries)"
| "walk extensions filePath rel (RegularFile bytes) =
     (if \<not> contains extensions (filepath_Ext filePath) then Inr []
      else if bytes > 1024 * 1024 then Inr []
      else Inr [\<lparr>path = filePath,
                 priority = path_priority (if rel = [] then [''.''] else rel)\<rparr>])"
| "walk_entries extensions dir rel [] = Inr []"
| "walk_entries extensions dir rel ((name, node) # entries) =
     (case walk extensions (filepath_Join dir name) (rel @ [name]) node of
        Inl err \<Rightarrow> Inl err
      | Inr found \<Rightarrow>
          (case walk_entries extensions dir rel entries of
             Inl err \<Rightarrow> Inl err
           | Inr rest \<Rightarrow> Inr (found @ rest)))"

text \<open>
  \<open>sort.Slice\<close> with the closure \<open>less\<close> of \<open>collectFiles\<close>. The closure is the strict
  lexicographic order on (priority, path), and a record is its priority and path, so the
  sorted slice does not depend on the sorting algorithm.
\<close>

definition less_file :: "fileWithPriority \<Rightarrow> fileWithPriority \<Rightarrow> bool" where
  "less_file a b =
     (if priority a \<noteq> priority b then priority a < priority b else path a < path b)"

definition file_key :: "fileWithPriority \<Rightarrow> int \<times> string" where
  "file_key f = (priority f, path f)"

definition sort_files :: "fileWithPriority list \<Rightarrow> fileWithPriority list" where
  "sort_files files = sort_key file_key files"

section \<open>ProgressState (\<open>IndexingState\<close>)\<close>

text \<open>
  The time stamps are left out but for whether \<open>CompletionTime\<close> is set. The counters are
  Go \<open>int\<close>s far from wrapping; they are unbounded integers here.
\<close>

record IndexingState =
  RootPath :: string
  TotalFiles :: int
  IndexedFiles :: int
  TotalChunks :: int
  ProcessedFiles :: "string \<rightharpoonup> bool"
  FailedFiles :: "string \<rightharpoonup> string"
  Status :: string
  CompletionTimeSet :: bool

definition NewIndexingState :: "string \<Rightarrow> IndexingState" where
  "NewIndexingState rootPath =
     \<lparr>RootPath = rootPath, TotalFiles = 0, IndexedFiles = 0, TotalChunks = 0,
      ProcessedFiles = Map.empty, FailedFiles = Map.empty, Status = ''in_progress'',
      CompletionTimeSet = False\<rparr>"

definition MarkFileProcessed :: "IndexingState \<Rightarrow> string \<Rightarrow> int \<Rightarrow> IndexingState" where
  "MarkFileProcessed s filePath chunksCount =
     s\<lparr>ProcessedFiles := (ProcessedFiles s)(filePath \<mapsto> True),
       IndexedFiles := IndexedFiles s + 1,
       TotalChunks := TotalChunks s + chunksCount\<rparr>"

definition MarkFileFailed :: "IndexingState \<Rightarrow> string \<Rightarrow> string \<Rightarrow> IndexingState" where
  "MarkFileFailed s filePath errorMsg = s\<lparr>FailedFiles := (FailedFiles s)(filePath \<mapsto> errorMsg)\<rparr>"

text \<open>Reading a Go map at an absent key gives the zero value \<open>false\<close>.\<close>

definition IsFileProcessed :: "IndexingState \<Rightarrow> string \<Rightarrow> bool" where
  "IsFileProcessed s filePath = (case ProcessedFiles s filePath of Some b \<Rightarrow> b | None \<Rightarrow> False)"

definition SetStatus :: "IndexingState \<Rightarrow> string \<Rightarrow> IndexingState" where
  "SetStatus s status =
     (if status = ''completed'' \<or> status = ''failed''
      then s\<lparr>Status := status, CompletionTimeSet := True\<rparr>
      else s\<lparr>Status := status\<rparr>)"

section \<open>The collaborators and the calls made to them\<close>

type_synonym vector = "real list"

text \<open>
  A point submitted to the store: its payload holds the five fields of the chunk. The
  random \<open>ID\<close> is left out.
\<close>

record Point =
  Vector :: vector
  Payload :: CodeChunk

text \<open>
  The calls a run makes, in order. \<open>EvEmbedBatch\<close> carries the chunks whose texts are
  sent to the embedder; \<open>EvSave\<close> the state handed to \<open>Save\<close>.
\<close>

datatype event =
    EvChunkFile string
  | EvMarkProcessed string int
  | EvMarkFailed string string
  | EvEmbedBatch "CodeChunk list"
  | EvUpsert "Point list"
  | EvDelete string
  | EvSetStatus string
  | EvSave IndexingState
  | EvSleep

text \<open>
  How a call that returns a Go \<open>error\<close> ends: with nil, with an error, or with a run-time
  panic that nothing in the repository recovers from.
\<close>

datatype outcome = Ok | Failed error | Panicked

text \<open>What \<open>LoadIndexingState\<close> returns for the state file: an error or the state saved.\<close>

type_synonym disk = "error + IndexingState"

text \<open>
  The world outside the indexer. The file system is fixed during a run. The outcome of a
  call to the embedder, the store, \<open>Save\<close> or the context may depend on all calls made
  before it. \<open>EmbedBatch\<close> returns an error or a list of vectors, of any length. A failed
  \<open>Save\<close> also tells what a later load of the state file returns. The state file is one written
  by \<open>Save\<close>, and reading it back gives the state that was written.
\<close>

record world =
  Lstat :: "string \<Rightarrow> fs_node"
  ReadFile :: "string \<Rightarrow> error + string"
  StatNotExist :: "string \<Rightarrow> bool"
  EmbedBatch :: "event list \<Rightarrow> string list \<Rightarrow> error + vector list"
  UpsertErr :: "event list \<Rightarrow> Point list \<Rightarrow> error option"
  DeleteErr :: "event list \<Rightarrow> string \<Rightarrow> error option"
  SaveFail :: "event list \<Rightarrow> IndexingState \<Rightarrow> (error \<times> disk) option"
  CtxDone :: "event list \<Rightarrow> bool"

definition chunkFile :: "world \<Rightarrow> string \<Rightarrow> error + CodeChunk list" where
  "chunkFile w filePath =
     (case ReadFile w filePath of
        Inl err \<Rightarrow> Inl err
      | Inr content \<Rightarrow> Inr (chunk_text filePath content))"

definition collectFiles :: "world \<Rightarrow> string \<Rightarrow> string list \<Rightarrow> error + string list" where
  "collectFiles w rootPath extensions =
     (case walk extensions rootPath [] (Lstat w rootPath) of
        Inl err \<Rightarrow> Inl err
      | Inr files \<Rightarrow> Inr (map path (sort_files files)))"

definition Save :: "world \<Rightarrow> IndexingState \<Rightarrow> disk \<Rightarrow> event list \<Rightarrow> error option \<times> disk \<times> event list" where
  "Save w s dk tr =
     (case SaveFail w tr s of
        None \<Rightarrow> (None, Inr s, tr @ [EvSave s])
      | Some (err, dk') \<Rightarrow> (Some err, dk', tr @ [EvSave s]))"

section \<open>LocalEmbedder (rag/embeddings.go)\<close>

text \<open>
  The embedder that the repository ships for a local server. \<open>direct\<close> stands for
  \<open>embedBatchDirect\<close>, one request to the server; it returns the vectors of the response,
  however many. The sizes are those set by \<open>NewLocalEmbedder\<close>.
\<close>

definition maxBatchSize :: nat where
  "maxBatchSize = 20"

definition maxTokensHint :: nat where
  "maxTokensHint = 28000"

definition estimateTokens :: "string list \<Rightarrow> nat" where
  "estimateTokens texts = (sum_list (map length texts) + length texts * 100) div 4"

text \<open>
  The loop over the sub-batches from index \<open>i\<close>. A sub-batch whose estimate is too large
  is cut to \<open>reducedSize\<close> texts, and the loop still advances by \<open>maxBatchSize\<close>.
\<close>

function embed_sub_batches ::
  "(string list \<Rightarrow> error + vector list) \<Rightarrow> string list \<Rightarrow> nat \<Rightarrow> vector list
     \<Rightarrow> error + vector list" where
  "embed_sub_batches direct texts i allEmbeddings =
     (if i < length texts then
        (let end0 = (if i + maxBatchSize > length texts then length texts else i + maxBatchSize);
             estimatedTokens = estimateTokens (take (end0 - i) (drop i texts));
             end' = (if estimatedTokens > maxTokensHint then
                       (let reducedSize0 = (maxBatchSize * maxTokensHint) div estimatedTokens;
                            reducedSize = (if reducedSize0 < 1 then 1 else reducedSize0)
                        in if i + reducedSize > length texts then length texts
                           else i + reducedSize)
                     else end0);
             subBatch = take (end' - i) (drop i texts)
         in case direct subBatch of
              Inl err \<Rightarrow>
                Inl (Err (''failed to embed sub-batch ['' @ format_int (int i) @ '':''
                          @ format_int (int end') @ '']: '' @ Error err))
            | Inr embeddings \<Rightarrow>
                embed_sub_batches direct texts (i + maxBatchSize) (allEmbeddings @ embeddings))
      else Inr allEmbeddings)"
  by pat_completeness auto
termination
  by (relation "measure (\<lambda>(direct, texts, i, allEmbeddings). length texts - i)")
     (auto simp: maxBatchSize_def)

declare embed_sub_batches.simps [simp del]

definition LocalEmbedder_EmbedBatch ::
  "(string list \<Rightarrow> error + vector list) \<Rightarrow> string list \<Rightarrow> error + vector list" where
  "LocalEmbedder_EmbedBatch direct texts =
     (if length texts \<le> maxBatchSize \<and> estimateTokens texts \<le> maxTokensHint
      then direct texts
      else embed_sub_batches direct texts 0 [])"

section \<open>The batch of chunks (\<open>indexBatch\<close>)\<close>

definition embed_text :: "CodeChunk \<Rightarrow> string" where
  "embed_text chunk =
     ''File: '' @ filepath_Base (FilePath chunk) @ [CHR 0x0A] @ ''Language: '' @ Language chunk
       @ [CHR 0x0A] @ ''Code:'' @ [CHR 0x0A] @ Content chunk"

text \<open>
  The loop that builds the points reads \<open>embeddings[i]\<close> for every chunk: with fewer
  vectors than chunks it panics, before the store is called; vectors beyond the chunks
  are ignored.
\<close>

definition indexBatch :: "world \<Rightarrow> event list \<Rightarrow> CodeChunk list \<Rightarrow> event list \<times> outcome" where
  "indexBatch w tr chunks =
     (let texts = map embed_text chunks;
          tr1 = tr @ [EvEmbedBatch chunks]
      in case EmbedBatch w tr texts of
           Inl err \<Rightarrow> (tr1, Failed err)
         | Inr embeddings \<Rightarrow>
             if length embeddings < length chunks then (tr1, Panicked)
             else
               (let points = map (\<lambda>(chunk, v). \<lparr>Vector = v, Payload = chunk\<rparr>)
                               (zip chunks embeddings)
                in (tr1 @ [EvUpsert points],
                    case UpsertErr w tr1 points of None \<Rightarrow> Ok | Some err \<Rightarrow> Failed err)))"

section \<open>IndexingPipeline (\<open>IndexDirectoryIncremental\<close>, \<open>processBatch\<close>)\<close>

definition FileBatchSize :: nat where
  "FileBatchSize = 50"

definition ChunkBatchSize :: nat where
  "ChunkBatchSize = 100"

text \<open>The first loop of \<open>processBatch\<close>: chunk each file and mark it.\<close>

fun chunk_files ::
  "world \<Rightarrow> string list \<Rightarrow> IndexingState \<times> event list \<times> CodeChunk list
     \<Rightarrow> IndexingState \<times> event list \<times> CodeChunk list" where
  "chunk_files w [] acc = acc"
| "chunk_files w (filePath # files) (s, tr, allChunks) =
     (case chunkFile w filePath of
        Inl err \<Rightarrow>
          chunk_files w files
            (MarkFileFailed s filePath (Error err),
             tr @ [EvChunkFile filePath, EvMarkFailed filePath (Error err)], allChunks)
      | Inr chunks \<Rightarrow>
          if length chunks = 0 then
            chunk_files w files
              (MarkFileProcessed s filePath 0,
               tr @ [EvChunkFile filePath, EvMarkProcessed filePath 0], allChunks)
          else
            chunk_files w files
              (MarkFileProcessed s filePath (int (length chunks)),
               tr @ [EvChunkFile filePath, EvMarkProcessed filePath (int (length chunks))],
               allChunks @ map (\<lambda>c. c\<lparr>FilePath := filePath\<rparr>) chunks))"

text \<open>The second loop of \<open>processBatch\<close>: index the chunks, 100 at a time.\<close>

function index_chunks ::
  "world \<Rightarrow> CodeChunk list \<Rightarrow> nat \<Rightarrow> event list \<Rightarrow> event list \<times> outcome" where
  "index_chunks w allChunks i tr =
     (if i < length allChunks then
        (let end' = (if i + ChunkBatchSize > length allChunks then length allChunks
                     else i + ChunkBatchSize);
             chunkBatch = take (end' - i) (drop i allChunks)
         in case indexBatch w tr chunkBatch of
              (tr', Failed err) \<Rightarrow>
                (tr', Failed (Err (''failed to index chunk batch: '' @ Error err)))
            | (tr', Panicked) \<Rightarrow> (tr', Panicked)
            | (tr', Ok) \<Rightarrow> index_chunks w allChunks (i + ChunkBatchSize) (tr' @ [EvSleep]))
      else (tr, Ok))"
  by pat_completeness auto
termination
  by (relation "measure (\<lambda>(w, allChunks, i, tr). length allChunks - i)")
     (auto simp: ChunkBatchSize_def)

declare index_chunks.simps [simp del]

definition processBatch ::
  "world \<Rightarrow> IndexingState \<Rightarrow> event list \<Rightarrow> string list
     \<Rightarrow> IndexingState \<times> event list \<times> outcome" where
  "processBatch w s tr files =
     (case chunk_files w files (s, tr, []) of
        (s', tr', allChunks) \<Rightarrow>
          if length allChunks = 0 then (s', tr', Ok)
          else (case index_chunks w allChunks 0 tr' of (tr'', err) \<Rightarrow> (s', tr'', err)))"

text \<open>The start of a run: resume the state loaded, or start afresh.\<close>

definition load_or_new :: "disk \<Rightarrow> string \<Rightarrow> IndexingState" where
  "load_or_new dk dirPath =
     (case dk of
        Inl err \<Rightarrow> NewIndexingState dirPath
      | Inr loaded \<Rightarrow>
          if RootPath loaded \<noteq> dirPath \<or> Status loaded = ''completed''
          then NewIndexingState dirPath
          else loaded)"

text \<open>The filter of the files already processed.\<close>

definition filesToProcess :: "IndexingState \<Rightarrow> string list \<Rightarrow> string list" where
  "filesToProcess state allFiles = filter (\<lambda>file. \<not> IsFileProcessed state file) allFiles"

text \<open>
  The outcome of a run: how the call ended, the state in memory at that moment, the state
  file and the calls made. After a panic the process is gone and only the state file is
  left.
\<close>

record run =
  run_ret :: outcome
  run_state :: IndexingState
  run_stored :: disk
  run_trace :: "event list"

text \<open>How the loop over the file batches ends.\<close>

datatype loop_end = LoopDone | LoopCancelled | LoopPanicked

text \<open>
  The loop over the file batches from index \<open>i\<close>. An error of \<open>processBatch\<close> is only
  logged; a panic inside it ends the run before the state is saved.
\<close>

function batch_loop ::
  "world \<Rightarrow> string list \<Rightarrow> nat \<Rightarrow> IndexingState \<times> disk \<times> event list
     \<Rightarrow> loop_end \<times> IndexingState \<times> disk \<times> event list" where
  "batch_loop w files i (s, dk, tr) =
     (if i < length files then
        if CtxDone w tr then
          (case Save w s dk tr of (err, dk', tr') \<Rightarrow> (LoopCancelled, s, dk', tr'))
        else
          (let end' = (if i + FileBatchSize > length files then length files
                       else i + FileBatchSize);
               batch = take (end' - i) (drop i files)
           in case processBatch w s tr batch of
                (s', tr', Panicked) \<Rightarrow> (LoopPanicked, s', dk, tr')
              | (s', tr', err) \<Rightarrow>
                  (case Save w s' dk tr' of
                     (serr, dk', tr'') \<Rightarrow> batch_loop w files (i + FileBatchSize) (s', dk', tr'')))
      else (LoopDone, s, dk, tr))"
  by pat_completeness auto
termination
  by (relation "measure (\<lambda>(w, files, i, acc). length files - i)")
     (auto simp: FileBatchSize_def)

declare batch_loop.simps [simp del]

definition IndexDirectoryIncremental :: "world \<Rightarrow> disk \<Rightarrow> string \<Rightarrow> string list \<Rightarrow> run" where
  "IndexDirectoryIncremental w dk dirPath extensions =
     (let state0 = load_or_new dk dirPath in
      case collectFiles w dirPath extensions of
        Inl err \<Rightarrow>
          \<lparr>run_ret = Failed (Err (''failed to collect files: '' @ Error err)),
           run_state = state0, run_stored = dk, run_trace = []\<rparr>
      | Inr allFiles \<Rightarrow>
          (let state1 = state0\<lparr>TotalFiles := int (length allFiles)\<rparr>;
               todo = filesToProcess state1 allFiles
           in if length todo = 0 then
                (let state2 = SetStatus state1 ''completed'' in
                 case Save w state2 dk [EvSetStatus ''completed''] of
                   (serr, dk', tr') \<Rightarrow>
                     \<lparr>run_ret = Ok, run_state = state2, run_stored = dk', run_trace = tr'\<rparr>)
              else
                (case batch_loop w todo 0 (state1, dk, []) of
                   (LoopCancelled, s, dk', tr) \<Rightarrow>
                     \<lparr>run_ret = Failed (Err ''context canceled''), run_state = s,
                      run_stored = dk', run_trace = tr\<rparr>
                 | (LoopPanicked, s, dk', tr) \<Rightarrow>
                     \<lparr>run_ret = Panicked, run_state = s, run_stored = dk', run_trace = tr\<rparr>
                 | (LoopDone, s, dk', tr) \<Rightarrow>
                     (let s' = SetStatus s ''completed'' in
                      case Save w s' dk' (tr @ [EvSetStatus ''completed'']) of
                        (serr, dk'', tr') \<Rightarrow>
                          \<lparr>run_ret = Ok, run_state = s', run_stored = dk'', run_trace = tr'\<rparr>))))"

section \<open>ReindexCoordinator (\<open>ReindexFiles\<close>)\<close>

text \<open>
  The loop over the requested paths; the state is the trace, the chunks collected, and
  the two counters that the function only logs.
\<close>

fun reindex_loop ::
  "world \<Rightarrow> string list \<Rightarrow> event list \<times> CodeChunk list \<times> int \<times> int
     \<Rightarrow> event list \<times> CodeChunk list \<times> int \<times> int" where
  "reindex_loop w [] acc = acc"
| "reindex_loop w (filePath # filePaths) (tr, allChunks, deletedCount, indexedCount) =
     (let deletedCount' = (case DeleteErr w tr filePath of
                             Some err \<Rightarrow> deletedCount
                           | None \<Rightarrow> deletedCount + 1);
          tr1 = tr @ [EvDelete filePath]
      in if StatNotExist w filePath then
           reindex_loop w filePaths (tr1, allChunks, deletedCount', indexedCount)
         else
           (case chunkFile w filePath of
              Inl err \<Rightarrow>
                reindex_loop w filePaths
                  (tr1 @ [EvChunkFile filePath], allChunks, deletedCount', indexedCount)
            | Inr chunks \<Rightarrow>
                if length chunks = 0 then
                  reindex_loop w filePaths
                    (tr1 @ [EvChunkFile filePath], allChunks, deletedCount', indexedCount)
                else
                  reindex_loop w filePaths
                    (tr1 @ [EvChunkFile filePath], allChunks @ chunks, deletedCount',
                     indexedCount + 1)))"

definition ReindexFiles :: "world \<Rightarrow> string list \<Rightarrow> event list \<times> outcome" where
  "ReindexFiles w filePaths =
     (case reindex_loop w filePaths ([], [], 0, 0) of
        (tr, allChunks, deletedCount, indexedCount) \<Rightarrow>
          if length allChunks = 0 then (tr, Ok)
          else (case indexBatch w tr allChunks of
                  (tr', Failed err) \<Rightarrow> (tr', Failed (Err (''failed to index chunks: '' @ Error err)))
                | (tr', Panicked) \<Rightarrow> (tr', Panicked)
                | (tr', Ok) \<Rightarrow> (tr', Ok)))"

section \<open>Notions used in the properties of the Chunker\<close>

text \<open>The text and the chunk of the window that starts at index \<open>i\<close>.\<close>

definition window_text :: "string list \<Rightarrow> nat \<Rightarrow> string" where
  "window_text lines i =
     strings_Join (take ((if i + chunkSize > length lines then length lines else i + chunkSize) - i)
                     (drop i lines)) [CHR 0x0A]"

definition mk_chunk :: "string \<Rightarrow> string list \<Rightarrow> nat \<Rightarrow> CodeChunk" where
  "mk_chunk filePath lines i =
     \<lparr>FilePath = filePath, Content = window_text lines i, LineStart = int i + 1,
      LineEnd = int (if i + chunkSize > length lines then length lines else i + chunkSize),
      Language = detectLanguage filePath\<rparr>"






section \<open>A world for the concrete cases\<close>

text \<open>
  Every call to a collaborator succeeds, the embedder returns one (empty) vector per
  text, and the context is never done; the files and the tree are given.
\<close>

definition calm_world :: "(string \<Rightarrow> error + string) \<Rightarrow> fs_node \<Rightarrow> world" where
  "calm_world readFile tree =
     \<lparr>Lstat = (\<lambda>p. tree), ReadFile = readFile,
      StatNotExist = (\<lambda>p. case readFile p of Inl err \<Rightarrow> True | Inr content \<Rightarrow> False),
      EmbedBatch = (\<lambda>tr texts. Inr (map (\<lambda>t. []) texts)),
      UpsertErr = (\<lambda>tr points. None), DeleteErr = (\<lambda>tr p. None),
      SaveFail = (\<lambda>tr s. None), CtxDone = (\<lambda>tr. False)\<rparr>"

section \<open>Notions used in the properties of the FileCollector\<close>

text \<open>
  The entry reached from a node by a list of names, each the name of an entry of the
  directory before it.
\<close>

inductive reaches :: "fs_node \<Rightarrow> string list \<Rightarrow> fs_node \<Rightarrow> bool" where
  here: "reaches node [] node"
| below: "(name, child) \<in> set entries \<Longrightarrow> reaches child parts node \<Longrightarrow>
          reaches (Directory entries) (name # parts) node"

text \<open>The parts of the relative path: \<open>filepath.Rel\<close> gives \<open>"."\<close> for the root itself.\<close>

definition rel_parts :: "string list \<Rightarrow> string list" where
  "rel_parts parts = (if parts = [] then [''.''] else parts)"

text \<open>The rank of the first part that the table knows, 99 when it knows none.\<close>

definition first_ranked :: "string list \<Rightarrow> int" where
  "first_ranked parts =
     (case find (\<lambda>part. priorityDirs part \<noteq> None) parts of
        None \<Rightarrow> 99
      | Some part \<Rightarrow> the (priorityDirs part))"

text \<open>
  One tree listed in two orders: a file under the unranked \<open>alpha\<close>, two under \<open>utils\<close>
  (one with an extension that is not asked for), one under the pruned \<open>node_modules\<close>,
  one under \<open>middleware\<close>.
\<close>

definition tree_a :: fs_node where
  "tree_a = Directory
     [(''alpha'', Directory [(''c.go'', RegularFile 10)]),
      (''utils'', Directory [(''b.go'', RegularFile 10), (''notes.txt'', RegularFile 10)]),
      (''node_modules'', Directory [(''dep.go'', RegularFile 10)]),
      (''middleware'', Directory [(''a.go'', RegularFile 10)])]"

definition tree_b :: fs_node where
  "tree_b = Directory
     [(''middleware'', Directory [(''a.go'', RegularFile 10)]),
      (''node_modules'', Directory [(''dep.go'', RegularFile 10)]),
      (''utils'', Directory [(''notes.txt'', RegularFile 10), (''b.go'', RegularFile 10)]),
      (''alpha'', Directory [(''c.go'', RegularFile 10)])]"

text \<open>
  A tree with a file under \<open>utils\<close> and, under the unranked \<open>zeta\<close>, a file without
  extension whose name is \<open>middleware\<close>.
\<close>

definition tree_c :: fs_node where
  "tree_c = Directory
     [(''utils'', Directory [(''b.go'', RegularFile 10)]),
      (''zeta'', Directory [(''middleware'', RegularFile 10)])]"

section \<open>Notions used in the properties of the pipeline and of the ReindexCoordinator\<close>

text \<open>The calls of one kind in a trace, in order.\<close>

definition chunked_files :: "event list \<Rightarrow> string list" where
  "chunked_files tr = concat (map (\<lambda>e. case e of EvChunkFile p \<Rightarrow> [p] | _ \<Rightarrow> []) tr)"

definition embed_calls :: "event list \<Rightarrow> CodeChunk list list" where
  "embed_calls tr = concat (map (\<lambda>e. case e of EvEmbedBatch cs \<Rightarrow> [cs] | _ \<Rightarrow> []) tr)"

definition upsert_calls :: "event list \<Rightarrow> Point list list" where
  "upsert_calls tr = concat (map (\<lambda>e. case e of EvUpsert ps \<Rightarrow> [ps] | _ \<Rightarrow> []) tr)"

definition delete_calls :: "event list \<Rightarrow> string list" where
  "delete_calls tr = concat (map (\<lambda>e. case e of EvDelete p \<Rightarrow> [p] | _ \<Rightarrow> []) tr)"

definition status_calls :: "event list \<Rightarrow> string list" where
  "status_calls tr = concat (map (\<lambda>e. case e of EvSetStatus s \<Rightarrow> [s] | _ \<Rightarrow> []) tr)"

definition save_calls :: "event list \<Rightarrow> IndexingState list" where
  "save_calls tr = concat (map (\<lambda>e. case e of EvSave s \<Rightarrow> [s] | _ \<Rightarrow> []) tr)"

text \<open>The chunks that a requested path adds to the combined batch of \<open>ReindexFiles\<close>.\<close>

definition reindex_chunks :: "world \<Rightarrow> string \<Rightarrow> CodeChunk list" where
  "reindex_chunks w filePath =
     (if StatNotExist w filePath then []
      else (case chunkFile w filePath of Inl err \<Rightarrow> [] | Inr chunks \<Rightarrow> chunks))"

text \<open>
  A world where \<open>a.go\<close> holds one line and no other file exists.
\<close>

definition gone_world :: world where
  "gone_world = calm_world (\<lambda>p. if p = ''a.go'' then Inr ''x'' else Inl (Err ''no such file''))
                  (Unreadable (Err ''no such file''))"

text \<open>The files marked processed in a trace, each with its number of chunks.\<close>

definition mark_calls :: "event list \<Rightarrow> (string \<times> int) list" where
  "mark_calls tr = concat (map (\<lambda>e. case e of EvMarkProcessed p n \<Rightarrow> [(p, n)] | _ \<Rightarrow> []) tr)"

text \<open>Whether a file can be chunked, and the chunks it gives.\<close>

definition chunks_ok :: "world \<Rightarrow> string \<Rightarrow> bool" where
  "chunks_ok w filePath = (case chunkFile w filePath of Inl err \<Rightarrow> False | Inr chunks \<Rightarrow> True)"

definition file_chunks :: "world \<Rightarrow> string \<Rightarrow> CodeChunk list" where
  "file_chunks w filePath = (case chunkFile w filePath of Inl err \<Rightarrow> [] | Inr chunks \<Rightarrow> chunks)"

text \<open>The sub-batch of chunks that starts at index \<open>i\<close>.\<close>

definition chunk_batch :: "CodeChunk list \<Rightarrow> nat \<Rightarrow> CodeChunk list" where
  "chunk_batch allChunks i =
     take ((if i + ChunkBatchSize > length allChunks then length allChunks
            else i + ChunkBatchSize) - i) (drop i allChunks)"

text \<open>All chunks of a batch of files, in order.\<close>

definition batch_chunks :: "world \<Rightarrow> string list \<Rightarrow> CodeChunk list" where
  "batch_chunks w files = concat (map (file_chunks w) files)"


text \<open>The batch of files that starts at index \<open>i\<close>.\<close>

definition file_batch :: "string list \<Rightarrow> nat \<Rightarrow> string list" where
  "file_batch files i =
     take ((if i + FileBatchSize > length files then length files else i + FileBatchSize) - i)
       (drop i files)"

text \<open>
  A tree with the single file \<open>/repo/a.go\<close> of one line, and two runs over it: the first
  with no state file, the second with the state file the first has left.
\<close>

definition repo_world :: world where
  "repo_world = calm_world (\<lambda>p. if p = ''/repo/a.go'' then Inr ''x'' else Inl (Err ''no such file''))
                  (Directory [(''a.go'', RegularFile 1)])"

definition first_run :: run where
  "first_run = IndexDirectoryIncremental repo_world (Inl (Err ''no state file'')) ''/repo'' [''.go'']"

definition second_run :: run where
  "second_run = IndexDirectoryIncremental repo_world (run_stored first_run) ''/repo'' [''.go'']"

text \<open>The same tree with an embedder that always fails.\<close>

definition broken_world :: world where
  "broken_world = repo_world\<lparr>EmbedBatch := (\<lambda>tr texts. Inl (Err ''embedder down''))\<rparr>"

text \<open>
  The same tree with an embedder that answers every call with one vector fewer than it
  was given texts, and no error.
\<close>

definition short_world :: world where
  "short_world = repo_world\<lparr>EmbedBatch := (\<lambda>tr texts. Inr (butlast (map (\<lambda>t. []) texts)))\<rparr>"

text \<open>
  The embedder never answers with fewer vectors than texts; the embedder answers every
  call, with a vector for each text.
\<close>

definition never_short :: "world \<Rightarrow> bool" where
  "never_short w \<longleftrightarrow>
     (\<forall>tr texts vs. EmbedBatch w tr texts = Inr vs \<longrightarrow> length texts \<le> length vs)"

definition embeds_all :: "world \<Rightarrow> bool" where
  "embeds_all w \<longleftrightarrow>
     (\<forall>tr texts. \<exists>vs. EmbedBatch w tr texts = Inr vs \<and> length texts \<le> length vs)"

text \<open>
  A tree with the files \<open>/repo/a.go\<close> and \<open>/repo/b.go\<close>, and the state of a run over
  \<open>/repo\<close> that was interrupted after \<open>/repo/a.go\<close>.
\<close>

definition two_world :: world where
  "two_world = calm_world (\<lambda>p. if p = ''/repo/a.go'' \<or> p = ''/repo/b.go'' then Inr ''x''
                                 else Inl (Err ''no such file''))
                 (Directory [(''a.go'', RegularFile 1), (''b.go'', RegularFile 1)])"

definition resumed_state :: IndexingState where
  "resumed_state = MarkFileProcessed (NewIndexingState ''/repo'') ''/repo/a.go'' 1"

section \<open>Properties of the ResultDeduplicator\<close>

lemma dedup_loop_dup:
  assumes "\<exists>existingKey \<in> dom seen. isOverlapping existingKey (result_key result)"
  shows "dedup_loop seen unique (result # rest) = dedup_loop seen unique rest"
  using assms by (auto simp: Let_def)

lemma dedup_loop_new:
  assumes "\<not> (\<exists>existingKey \<in> dom seen. isOverlapping existingKey (result_key result))"
  shows "dedup_loop seen unique (result # rest)
         = dedup_loop (seen(result_key result \<mapsto> True)) (unique @ [result]) rest"
  using assms by (auto simp: Let_def)

lemma dedup_loop_append:
  "dedup_loop seen unique results = unique @ dedup_loop seen [] results"
proof (induction results arbitrary: seen unique)
  case Nil
  show ?case by simp
next
  case (Cons result rest)
  show ?case
  proof (cases "\<exists>existingKey \<in> dom seen. isOverlapping existingKey (result_key result)")
    case True
    then show ?thesis
      using Cons.IH [of seen unique] by (simp only: dedup_loop_dup)
  next
    case False
    have "dedup_loop seen unique (result # rest)
          = dedup_loop (seen(result_key result \<mapsto> True)) (unique @ [result]) rest"
      using False by (rule dedup_loop_new)
    also have "\<dots> = (unique @ [result]) @ dedup_loop (seen(result_key result \<mapsto> True)) [] rest"
      by (rule Cons.IH)
    also have "\<dots> = unique @ dedup_loop (seen(result_key result \<mapsto> True)) ([] @ [result]) rest"
      by (simp only: Cons.IH [of "seen(result_key result \<mapsto> True)" "[result]"]
            append_assoc append_Nil)
    also have "\<dots> = unique @ dedup_loop seen [] (result # rest)"
      by (simp only: dedup_loop_new [OF False, of "[]" rest])
    finally show ?thesis .
  qed
qed

lemma dedup_loop_idem:
  "dedup_loop seen [] (dedup_loop seen [] results) = dedup_loop seen [] results"
proof (induction results arbitrary: seen)
  case Nil
  show ?case by simp
next
  case (Cons result rest)
  let ?k = "result_key result"
  show ?case
  proof (cases "\<exists>existingKey \<in> dom seen. isOverlapping existingKey ?k")
    case True
    then show ?thesis using Cons.IH [of seen] by (simp only: dedup_loop_dup)
  next
    case False
    let ?seen' = "seen(?k \<mapsto> True)"
    have new: "dedup_loop seen [] (result # xs) = result # dedup_loop ?seen' [] xs" for xs
      by (simp only: dedup_loop_new [OF False, of "[]" xs]
            dedup_loop_append [of ?seen' "[result]" xs] append_Nil append_Cons)
    have "dedup_loop seen [] (dedup_loop seen [] (result # rest))
          = result # dedup_loop ?seen' [] (dedup_loop ?seen' [] rest)"
      by (simp only: new)
    also have "\<dots> = result # dedup_loop ?seen' [] rest"
      by (simp only: Cons.IH)
    also have "\<dots> = dedup_loop seen [] (result # rest)"
      by (simp only: new)
    finally show ?thesis .
  qed
qed

text \<open>
  C9. Deduplication is idempotent: for every list of hits, deduplicating the output of
  \<open>deduplicateResults\<close> again returns that output unchanged.
\<close>

theorem deduplicateResults_idempotent:
  "deduplicateResults (deduplicateResults results) = deduplicateResults results"
proof (cases "results = []")
  case True
  then show ?thesis by (simp add: deduplicateResults_def)
next
  case False
  then have out: "deduplicateResults results = dedup_loop Map.empty [] results"
    by (simp add: deduplicateResults_def)
  show ?thesis
  proof (cases "dedup_loop Map.empty [] results = []")
    case True
    then show ?thesis using out by (simp add: deduplicateResults_def)
  next
    case False
    then have "deduplicateResults (dedup_loop Map.empty [] results)
               = dedup_loop Map.empty [] (dedup_loop Map.empty [] results)"
      by (simp add: deduplicateResults_def)
    then show ?thesis using out dedup_loop_idem [of Map.empty results] by simp
  qed
qed

theorem deduplicateResults_idempotent_witness:
  "deduplicateResults (deduplicateResults
      [mk_hit ''a.go'' 0.9 1 50, mk_hit ''a.go'' 0.8 20 70, mk_hit ''a.go'' 0.7 60 120])
   = [mk_hit ''a.go'' 0.9 1 50, mk_hit ''a.go'' 0.7 60 120]"
proof -
  have "deduplicateResults
          [mk_hit ''a.go'' 0.9 1 50, mk_hit ''a.go'' 0.8 20 70, mk_hit ''a.go'' 0.7 60 120]
        = [mk_hit ''a.go'' 0.9 1 50, mk_hit ''a.go'' 0.7 60 120]"
    by (simp add: dedup_eval)
  then show ?thesis
    using deduplicateResults_idempotent
      [of "[mk_hit ''a.go'' 0.9 1 50, mk_hit ''a.go'' 0.8 20 70, mk_hit ''a.go'' 0.7 60 120]"]
    by simp
qed

text \<open>
  C2. Two hits are treated as overlapping only when they come from the same file. The
  code does not keep to it: \<open>parseRangeKey\<close> puts the constant 0 in the file slot, so the
  test "different files" of \<open>isOverlapping\<close> never fires, and of two hits with the same
  line range in two different files the second is dropped.
\<close>

theorem deduplicateResults_drops_other_file:
  "deduplicateResults [mk_hit ''a.go'' 0.9 1 50, mk_hit ''b.go'' 0.8 1 50]
   = [mk_hit ''a.go'' 0.9 1 50]"
  by (simp add: dedup_eval)

text \<open>
  The three cases of the threshold for two hits of one file whose path holds no colon:
  ranges 1-50 and 40-90 are both kept, ranges 1-50 and 26-75 are both kept, and of ranges
  1-50 and 20-70 only the first is kept.
\<close>

lemma strings_Split_prefix:
  "sep \<notin> set f \<Longrightarrow> strings_Split sep (f @ sep # rest) = f # strings_Split sep rest"
  by (induction f) auto

lemma parseRangeKey_colon_free:
  assumes "CHR '':'' \<notin> set f"
  shows "parseRangeKey (f @ CHR '':'' # rest) =
     (case strings_Split CHR '':'' rest of
        [p1] \<Rightarrow>
          (case strings_Split CHR ''-'' p1 of
             [r0, r1] \<Rightarrow>
               (case (Atoi r0, Atoi r1) of
                  (Some start, Some end') \<Rightarrow> Some [0, start, end']
                | _ \<Rightarrow> None)
           | _ \<Rightarrow> None)
      | _ \<Rightarrow> None)"
  using assms by (simp add: parseRangeKey_def strings_Split_prefix split: list.splits)

lemma result_key_mk_hit:
  "result_key (mk_hit f s a b) = f @ CHR '':'' # format_int a @ ''-'' @ format_int b"
  by (simp add: result_key_def mk_hit_def)

lemma dedup_threshold_colon_free:
  assumes "CHR '':'' \<notin> set f"
  shows "deduplicateResults [mk_hit f s1 1 50, mk_hit f s2 40 90]
         = [mk_hit f s1 1 50, mk_hit f s2 40 90]"
    and "deduplicateResults [mk_hit f s1 1 50, mk_hit f s2 26 75]
         = [mk_hit f s1 1 50, mk_hit f s2 26 75]"
    and "deduplicateResults [mk_hit f s1 1 50, mk_hit f s2 20 70] = [mk_hit f s1 1 50]"
  using assms
  by (simp_all add: deduplicateResults_def result_key_mk_hit isOverlapping_def
      parseRangeKey_colon_free format_int_def format_nat.simps digit_char_def Atoi_def
      digit_val_def float64_of_int_def Let_def)

text \<open>
  C4. For two hits of the same file, ranges 1-50 and 20-70 overlap by more than half and
  the lower-scored hit is dropped. The code does not keep to it for a file whose path
  holds a colon: \<open>parseRangeKey\<close> splits the key at every colon, finds three parts and
  returns nil, so no hit of that file is ever a duplicate and both hits are kept.
\<close>

theorem deduplicateResults_keeps_overlap_colon_path:
  "deduplicateResults [mk_hit ''C:/repo/main.go'' 0.9 1 50, mk_hit ''C:/repo/main.go'' 0.8 20 70]
   = [mk_hit ''C:/repo/main.go'' 0.9 1 50, mk_hit ''C:/repo/main.go'' 0.8 20 70]"
  by (simp add: dedup_eval)

section \<open>Properties of the Chunker\<close>

lemma chunk_loop_done: "\<not> i < length lines \<Longrightarrow> chunk_loop filePath lines i chunks = chunks"
  by (simp add: chunk_loop.simps)

lemma chunk_loop_blank:
  "i < length lines \<Longrightarrow> trims_to_empty (window_text lines i) \<Longrightarrow>
   chunk_loop filePath lines i chunks = chunk_loop filePath lines (i + 40) chunks"
  by (subst chunk_loop.simps) (simp add: window_text_def Let_def chunkSize_def overlap_def)

lemma chunk_loop_last:
  "i < length lines \<Longrightarrow> \<not> trims_to_empty (window_text lines i) \<Longrightarrow> length lines \<le> i + 50 \<Longrightarrow>
   chunk_loop filePath lines i chunks = chunks @ [mk_chunk filePath lines i]"
  by (subst chunk_loop.simps) (auto simp add: window_text_def mk_chunk_def Let_def chunkSize_def overlap_def)

lemma chunk_loop_more:
  "i < length lines \<Longrightarrow> \<not> trims_to_empty (window_text lines i) \<Longrightarrow> i + 50 < length lines \<Longrightarrow>
   chunk_loop filePath lines i chunks
   = chunk_loop filePath lines (i + 40) (chunks @ [mk_chunk filePath lines i])"
  by (subst chunk_loop.simps) (simp add: window_text_def mk_chunk_def Let_def chunkSize_def overlap_def)


lemma chunk_loop_bounds:
  "\<exists>cs. chunk_loop filePath lines i chunks = chunks @ cs
     \<and> (\<forall>c \<in> set cs. int i + 1 \<le> LineStart c \<and> LineStart c \<le> LineEnd c
            \<and> LineEnd c \<le> int (length lines) \<and> FilePath c = filePath)
     \<and> (\<forall>c \<in> set (butlast cs). LineEnd c < int (length lines))"
proof (induction "length lines - i" arbitrary: i chunks rule: less_induct)
  case less
  show ?case
  proof (cases "i < length lines")
    case False
    then show ?thesis using chunk_loop_done [OF False] by simp
  next
    case inb: True
    have dec: "length lines - (i + 40) < length lines - i" using inb by simp
    let ?c = "mk_chunk filePath lines i"
    have cprops: "int i + 1 \<le> LineStart ?c" "LineStart ?c \<le> LineEnd ?c"
      "LineEnd ?c \<le> int (length lines)" "FilePath ?c = filePath"
      using inb by (simp_all add: mk_chunk_def chunkSize_def)
    show ?thesis
    proof (cases "trims_to_empty (window_text lines i)")
      case True
      obtain cs where cs: "chunk_loop filePath lines (i + 40) chunks = chunks @ cs"
        "\<forall>c \<in> set cs. int (i + 40) + 1 \<le> LineStart c \<and> LineStart c \<le> LineEnd c
            \<and> LineEnd c \<le> int (length lines) \<and> FilePath c = filePath"
        "\<forall>c \<in> set (butlast cs). LineEnd c < int (length lines)"
        using less.hyps [OF dec, of chunks] by blast
      have "\<forall>c \<in> set cs. int i + 1 \<le> LineStart c \<and> LineStart c \<le> LineEnd c
            \<and> LineEnd c \<le> int (length lines) \<and> FilePath c = filePath"
        using cs(2) by fastforce
      then show ?thesis using chunk_loop_blank [OF inb True] cs(1,3) by auto
    next
      case nb: False
      show ?thesis
      proof (cases "length lines \<le> i + 50")
        case True
        have "chunk_loop filePath lines i chunks = chunks @ [?c]"
          using chunk_loop_last [OF inb nb True] .
        then show ?thesis using cprops by auto
      next
        case False
        then have more: "i + 50 < length lines" by simp
        obtain cs where cs: "chunk_loop filePath lines (i + 40) (chunks @ [?c]) = (chunks @ [?c]) @ cs"
          "\<forall>c \<in> set cs. int (i + 40) + 1 \<le> LineStart c \<and> LineStart c \<le> LineEnd c
              \<and> LineEnd c \<le> int (length lines) \<and> FilePath c = filePath"
          "\<forall>c \<in> set (butlast cs). LineEnd c < int (length lines)"
          using less.hyps [OF dec, of "chunks @ [?c]"] by blast
        have lt: "LineEnd ?c < int (length lines)"
          using more by (simp add: mk_chunk_def chunkSize_def)
        have run: "chunk_loop filePath lines i chunks = chunks @ (?c # cs)"
          using chunk_loop_more [OF inb nb more] cs(1) by simp
        have b1: "\<forall>c \<in> set (?c # cs). int i + 1 \<le> LineStart c \<and> LineStart c \<le> LineEnd c
              \<and> LineEnd c \<le> int (length lines) \<and> FilePath c = filePath"
          using cs(2) cprops by fastforce
        have b2: "\<forall>c \<in> set (butlast (?c # cs)). LineEnd c < int (length lines)"
          using cs(3) lt by auto
        show ?thesis using run b1 b2 by blast
      qed
    qed
  qed
qed



lemmas chunk_eval =
  chunkFile_def chunk_text_def chunk_loop.simps window_text_def chunkSize_def overlap_def
  is_ascii_space_def detectLanguage_def filepath_Ext_def calm_world_def Let_def










section \<open>Properties of the FileCollector\<close>

lemma path_priority_first_ranked: "path_priority parts = first_ranked parts"
  by (induction parts) (auto simp: first_ranked_def split: option.splits)

lemma file_key_inj: "file_key a = file_key b \<Longrightarrow> a = b"
  by (cases a, cases b) (simp add: file_key_def)

lemma less_file_key: "less_file a b \<longleftrightarrow> file_key a < file_key b"
  by (auto simp: less_file_def file_key_def)

lemma sort_files_mset: "mset (sort_files files) = mset files"
  by (simp add: sort_files_def)

lemma sort_files_sorted: "sorted (map file_key (sort_files files))"
  by (simp add: sort_files_def)

lemma reaches_later_entry:
  "reaches (Directory entries) parts (RegularFile bytes) \<Longrightarrow>
   reaches (Directory (entry # entries)) parts (RegularFile bytes)"
  by (erule reaches.cases) (auto intro: reaches.below)

text \<open>
  Every file found by the walk is a regular file of the tree with an allowed extension
  and at most 1 MiB; its path is the root joined with the names that lead to it, and its
  priority is that of the parts of its relative path.
\<close>

lemma walk_files:
  "walk extensions filePath rel node = Inr files \<Longrightarrow>
   \<forall>f \<in> set files. \<exists>parts bytes. reaches node parts (RegularFile bytes)
        \<and> path f = foldl filepath_Join filePath parts
        \<and> priority f = path_priority (rel_parts (rel @ parts))
        \<and> contains extensions (filepath_Ext (path f)) \<and> bytes \<le> 1024 * 1024"
  and walk_entries_files:
  "walk_entries extensions dir rel entries = Inr files \<Longrightarrow>
   \<forall>f \<in> set files. \<exists>parts bytes. reaches (Directory entries) parts (RegularFile bytes)
        \<and> path f = foldl filepath_Join dir parts
        \<and> priority f = path_priority (rel_parts (rel @ parts))
        \<and> contains extensions (filepath_Ext (path f)) \<and> bytes \<le> 1024 * 1024"
proof (induction extensions filePath rel node and extensions dir rel entries
       arbitrary: files and files rule: walk_walk_entries.induct)
  case (1 extensions filePath rel err)
  then show ?case by simp
next
  case (2 extensions filePath rel entries)
  then show ?case by (auto split: if_splits)
next
  case (3 extensions filePath rel bytes)
  show ?case
  proof
    fix f assume f: "f \<in> set files"
    have ok: "contains extensions (filepath_Ext filePath)" "bytes \<le> 1024 * 1024"
      "f = \<lparr>path = filePath, priority = path_priority (if rel = [] then [''.''] else rel)\<rparr>"
      using "3.prems" f by (auto split: if_splits)
    show "\<exists>parts bytes'. reaches (RegularFile bytes) parts (RegularFile bytes')
        \<and> path f = foldl filepath_Join filePath parts
        \<and> priority f = path_priority (rel_parts (rel @ parts))
        \<and> contains extensions (filepath_Ext (path f)) \<and> bytes' \<le> 1024 * 1024"
      using ok
      by (intro exI [of _ "[]"] exI [of _ bytes]) (simp add: rel_parts_def reaches.here)
  qed
next
  case (4 extensions dir rel)
  then show ?case by simp
next
  case (5 extensions dir rel name node entries)
  from "5.prems" obtain found rest where
    found: "walk extensions (filepath_Join dir name) (rel @ [name]) node = Inr found"
    and rest: "walk_entries extensions dir rel entries = Inr rest"
    and files: "files = found @ rest"
    by (auto split: sum.splits)
  show ?case
  proof
    fix f assume "f \<in> set files"
    then consider "f \<in> set found" | "f \<in> set rest" using files by auto
    then show "\<exists>parts bytes. reaches (Directory ((name, node) # entries)) parts (RegularFile bytes)
        \<and> path f = foldl filepath_Join dir parts
        \<and> priority f = path_priority (rel_parts (rel @ parts))
        \<and> contains extensions (filepath_Ext (path f)) \<and> bytes \<le> 1024 * 1024"
    proof cases
      case 1
      then obtain parts bytes where p: "reaches node parts (RegularFile bytes)"
        "path f = foldl filepath_Join (filepath_Join dir name) parts"
        "priority f = path_priority (rel_parts ((rel @ [name]) @ parts))"
        "contains extensions (filepath_Ext (path f))" "bytes \<le> 1024 * 1024"
        using "5.IH"(1) [OF found] by blast
      have r: "reaches (Directory ((name, node) # entries)) (name # parts) (RegularFile bytes)"
        using p(1) by (intro reaches.below [of name node]) simp_all
      show ?thesis
        using p r
        by (intro exI [of _ "name # parts"] exI [of _ bytes]) (simp add: rel_parts_def)
    next
      case 2
      then obtain parts bytes where p: "reaches (Directory entries) parts (RegularFile bytes)"
        "path f = foldl filepath_Join dir parts"
        "priority f = path_priority (rel_parts (rel @ parts))"
        "contains extensions (filepath_Ext (path f))" "bytes \<le> 1024 * 1024"
        using "5.IH"(2) [OF found rest] by blast
      show ?thesis
        using p reaches_later_entry [OF p(1)]
        by (intro exI [of _ parts] exI [of _ bytes]) simp
    qed
  qed
qed

lemma sort_files_unique:
  assumes "mset ys = mset files" and "sorted_wrt (\<lambda>a b. \<not> less_file b a) ys"
  shows "ys = sort_files files"
proof -
  have "sorted (map file_key ys)"
    using assms(2) by (simp add: sorted_map less_file_key not_less)
  moreover have "inj_on file_key (set files)"
    by (auto simp: inj_on_def dest: file_key_inj)
  ultimately show ?thesis
    using sort_key_inj_key_eq [of files ys file_key] assms(1) by (simp add: sort_files_def)
qed

lemma sort_files_order_free:
  assumes "mset files' = mset files"
  shows "sort_files files' = sort_files files"
proof -
  have "inj_on file_key (set files')"
    by (auto simp: inj_on_def dest: file_key_inj)
  then show ?thesis
    using sort_key_eq_sort_key [of files' files file_key] assms by (simp add: sort_files_def)
qed

lemma sort_files_sorted_wrt:
  "sorted_wrt (\<lambda>a b. priority a < priority b \<or> (priority a = priority b \<and> path a \<le> path b))
     (sort_files files)"
proof -
  have "sorted_wrt (\<lambda>a b. file_key a \<le> file_key b) (sort_files files)"
    using sort_files_sorted [of files] by (simp add: sorted_map)
  then show ?thesis
    by (rule sorted_wrt_mono_rel [rotated]) (auto simp: file_key_def)
qed

lemmas walk_eval =
  calm_world_def skipDirs_def filepath_Base_def strings_HasPrefix_def filepath_Ext_def
  filepath_Join_def filepath_Clean_def priorityDirs_def Let_def

lemma walk_tree_a:
  "walk [''.go''] ''/repo'' [] (Lstat (calm_world (\<lambda>p. Inr ''x'') tree_a) ''/repo'')
   = Inr [\<lparr>path = ''/repo/alpha/c.go'', priority = 99\<rparr>,
          \<lparr>path = ''/repo/utils/b.go'', priority = 6\<rparr>,
          \<lparr>path = ''/repo/middleware/a.go'', priority = 1\<rparr>]"
  by (simp add: tree_a_def walk_eval)

lemma walk_tree_b:
  "walk [''.go''] ''/repo'' [] (Lstat (calm_world (\<lambda>p. Inr ''x'') tree_b) ''/repo'')
   = Inr [\<lparr>path = ''/repo/middleware/a.go'', priority = 1\<rparr>,
          \<lparr>path = ''/repo/utils/b.go'', priority = 6\<rparr>,
          \<lparr>path = ''/repo/alpha/c.go'', priority = 99\<rparr>]"
  by (simp add: tree_b_def walk_eval)

lemma walk_tree_c:
  "walk ['''', ''.go''] ''/repo'' [] (Lstat (calm_world (\<lambda>p. Inr ''x'') tree_c) ''/repo'')
   = Inr [\<lparr>path = ''/repo/utils/b.go'', priority = 6\<rparr>,
          \<lparr>path = ''/repo/zeta/middleware'', priority = 1\<rparr>]"
  by (simp add: tree_c_def walk_eval)

lemma path_priority_dirs:
  "priorityDirs name = None \<Longrightarrow> path_priority (dirs @ [name]) = path_priority dirs"
  by (induction dirs) (auto split: option.splits)

text \<open>
  When the walk succeeds, \<open>collectFiles\<close> returns the paths of the files found, sorted by
  ascending priority and by path within one priority. The sorted list is a permutation
  of the files found, it is the only sorted permutation (so any correct sorting algorithm
  returns it), and it is the same for every order in which the walk meets the files. The
  priority of a file is the rank of the first part of its relative path that the table
  knows, the last part being the name of the file itself, and 99 when there is none.
\<close>

lemma collectFiles_sorted:
  assumes "walk extensions rootPath [] (Lstat w rootPath) = Inr files"
  shows "\<exists>sorted_files.
           collectFiles w rootPath extensions = Inr (map path sorted_files)
         \<and> mset sorted_files = mset files
         \<and> sorted_wrt (\<lambda>a b. priority a < priority b
                               \<or> (priority a = priority b \<and> path a \<le> path b)) sorted_files
         \<and> (\<forall>ys. mset ys = mset files \<and> sorted_wrt (\<lambda>a b. \<not> less_file b a) ys
                 \<longrightarrow> ys = sorted_files)
         \<and> (\<forall>files'. mset files' = mset files \<longrightarrow> sort_files files' = sorted_files)
         \<and> (\<forall>f \<in> set sorted_files. \<exists>parts bytes.
                reaches (Lstat w rootPath) parts (RegularFile bytes)
              \<and> path f = foldl filepath_Join rootPath parts
              \<and> priority f = first_ranked (rel_parts parts))"
proof (intro exI [of _ "sort_files files"] conjI)
  show "collectFiles w rootPath extensions = Inr (map path (sort_files files))"
    using assms by (simp add: collectFiles_def)
  show "mset (sort_files files) = mset files" by (rule sort_files_mset)
  show "sorted_wrt (\<lambda>a b. priority a < priority b
                               \<or> (priority a = priority b \<and> path a \<le> path b)) (sort_files files)"
    by (rule sort_files_sorted_wrt)
  show "\<forall>ys. mset ys = mset files \<and> sorted_wrt (\<lambda>a b. \<not> less_file b a) ys
                 \<longrightarrow> ys = sort_files files"
    using sort_files_unique by blast
  show "\<forall>files'. mset files' = mset files \<longrightarrow> sort_files files' = sort_files files"
    using sort_files_order_free by blast
  show "\<forall>f \<in> set (sort_files files). \<exists>parts bytes.
                reaches (Lstat w rootPath) parts (RegularFile bytes)
              \<and> path f = foldl filepath_Join rootPath parts
              \<and> priority f = first_ranked (rel_parts parts)"
  proof
    fix f assume "f \<in> set (sort_files files)"
    then have "f \<in> set files" by (simp add: sort_files_def)
    then obtain parts bytes where "reaches (Lstat w rootPath) parts (RegularFile bytes)"
      "path f = foldl filepath_Join rootPath parts"
      "priority f = path_priority (rel_parts ([] @ parts))"
      using walk_files [OF assms] by blast
    then show "\<exists>parts bytes.
                reaches (Lstat w rootPath) parts (RegularFile bytes)
              \<and> path f = foldl filepath_Join rootPath parts
              \<and> priority f = first_ranked (rel_parts parts)"
      by (intro exI [of _ parts] exI [of _ bytes]) (simp add: path_priority_first_ranked)
  qed
qed

text \<open>
  The tree listed in two orders gives one result: the file under \<open>middleware\<close>, then the
  file under \<open>utils\<close>, then the file under the unranked \<open>alpha\<close>.
\<close>

lemma collectFiles_two_orders:
  "collectFiles (calm_world (\<lambda>p. Inr ''x'') tree_a) ''/repo'' [''.go'']
     = Inr [''/repo/middleware/a.go'', ''/repo/utils/b.go'', ''/repo/alpha/c.go'']
   \<and> collectFiles (calm_world (\<lambda>p. Inr ''x'') tree_b) ''/repo'' [''.go'']
     = Inr [''/repo/middleware/a.go'', ''/repo/utils/b.go'', ''/repo/alpha/c.go'']"
proof -
  let ?fa = "[\<lparr>path = ''/repo/alpha/c.go'', priority = 99\<rparr>,
          \<lparr>path = ''/repo/utils/b.go'', priority = 6\<rparr>,
          \<lparr>path = ''/repo/middleware/a.go'', priority = 1\<rparr>]"
  let ?fb = "[\<lparr>path = ''/repo/middleware/a.go'', priority = 1\<rparr>,
          \<lparr>path = ''/repo/utils/b.go'', priority = 6\<rparr>,
          \<lparr>path = ''/repo/alpha/c.go'', priority = 99\<rparr>]"
  have sorted_b: "sorted_wrt (\<lambda>a b. \<not> less_file b a) ?fb"
    by (simp add: less_file_def)
  have perm: "mset ?fb = mset ?fa" by simp
  have sa: "sort_files ?fa = ?fb"
    using sort_files_unique [OF perm sorted_b] by simp
  have sb: "sort_files ?fb = ?fb"
    using sort_files_unique [OF refl sorted_b] by simp
  show ?thesis
    using walk_tree_a walk_tree_b sa sb by (simp add: collectFiles_def)
qed

text \<open>
  C7. The result of \<open>collectFiles\<close> is sorted by priority and path whatever the order of
  the walk (lemma \<open>collectFiles_sorted\<close>), but the priority is not always that of a
  directory. The loop that ranks a file scans every part of its relative path, the name
  of the file included, although the comment above it reads \<open>Determine priority based on
  directory\<close>. With the empty extension allowed, the file \<open>zeta/middleware\<close>, which lies
  under no directory of the table, gets the priority 1 of its own name and comes before
  the file under \<open>utils\<close>.
\<close>

theorem collectFiles_ranks_file_name:
  "walk ['''', ''.go''] ''/repo'' [] tree_c
     = Inr [\<lparr>path = ''/repo/utils/b.go'', priority = 6\<rparr>,
            \<lparr>path = ''/repo/zeta/middleware'', priority = 1\<rparr>]
   \<and> collectFiles (calm_world (\<lambda>p. Inr ''x'') tree_c) ''/repo'' ['''', ''.go'']
     = Inr [''/repo/zeta/middleware'', ''/repo/utils/b.go'']"
proof -
  let ?fc = "[\<lparr>path = ''/repo/utils/b.go'', priority = 6\<rparr>,
          \<lparr>path = ''/repo/zeta/middleware'', priority = 1\<rparr>]"
  let ?sc = "[\<lparr>path = ''/repo/zeta/middleware'', priority = 1\<rparr>,
          \<lparr>path = ''/repo/utils/b.go'', priority = 6\<rparr>]"
  have sorted_c: "sorted_wrt (\<lambda>a b. \<not> less_file b a) ?sc"
    by (simp add: less_file_def)
  have perm: "mset ?sc = mset ?fc" by simp
  have sc: "sort_files ?fc = ?sc"
    using sort_files_unique [OF perm sorted_c] by simp
  have w: "walk ['''', ''.go''] ''/repo'' [] tree_c = Inr ?fc"
    using walk_tree_c by (simp add: calm_world_def)
  show ?thesis
    using w sc by (simp add: collectFiles_def calm_world_def)
qed

section \<open>Properties of the ReindexCoordinator\<close>

lemmas calls_defs =
  chunked_files_def embed_calls_def upsert_calls_def delete_calls_def status_calls_def
  save_calls_def

lemma chunkFile_FilePath:
  assumes "chunkFile w filePath = Inr chunks"
  shows "\<forall>c \<in> set chunks. FilePath c = filePath"
proof -
  obtain content where "chunks = chunk_loop filePath (strings_Split (CHR 0x0A) content) 0 []"
    using assms by (auto simp: chunkFile_def chunk_text_def split: sum.splits)
  then show ?thesis
    using chunk_loop_bounds [of filePath "strings_Split (CHR 0x0A) content" 0 "[]"] by auto
qed

lemma reindex_chunks_FilePath: "\<forall>c \<in> set (reindex_chunks w filePath). FilePath c = filePath"
proof (cases "chunkFile w filePath")
  case (Inl err)
  then show ?thesis by (simp add: reindex_chunks_def)
next
  case (Inr chunks)
  then show ?thesis using chunkFile_FilePath [OF Inr] by (simp add: reindex_chunks_def)
qed

lemma reindex_loop_effect:
  assumes "reindex_loop w filePaths (tr, allChunks, d, i) = (tr', allChunks', d', i')"
  shows "delete_calls tr' = delete_calls tr @ filePaths
       \<and> chunked_files tr' = chunked_files tr @ filter (\<lambda>p. \<not> StatNotExist w p) filePaths
       \<and> embed_calls tr' = embed_calls tr \<and> upsert_calls tr' = upsert_calls tr
       \<and> allChunks' = allChunks @ concat (map (reindex_chunks w) filePaths)"
  using assms
proof (induction filePaths arbitrary: tr allChunks d i)
  case Nil
  then show ?case by simp
next
  case (Cons filePath filePaths)
  show ?case
  proof (cases "StatNotExist w filePath")
    case True
    then show ?thesis
      using Cons.prems Cons.IH
      by (simp add: Let_def calls_defs reindex_chunks_def)
  next
    case False
    show ?thesis
    proof (cases "chunkFile w filePath")
      case (Inl err)
      then show ?thesis
        using False Cons.prems Cons.IH
        by (simp add: Let_def calls_defs reindex_chunks_def)
    next
      case (Inr chunks)
      then show ?thesis
        using False Cons.prems
          Cons.IH [of "tr @ [EvDelete filePath, EvChunkFile filePath]" allChunks]
          Cons.IH [of "tr @ [EvDelete filePath, EvChunkFile filePath]" "allChunks @ chunks"]
        by (cases "chunks = []") (simp_all add: Let_def calls_defs reindex_chunks_def)
    qed
  qed
qed

lemma points_Payload:
  "length chunks \<le> length vs \<Longrightarrow>
   map Payload (map (\<lambda>(chunk, v). \<lparr>Vector = v, Payload = chunk\<rparr>) (zip chunks vs)) = chunks"
proof (induction chunks arbitrary: vs)
  case Nil
  then show ?case by simp
next
  case (Cons c chunks)
  then show ?case by (cases vs) auto
qed

lemma indexBatch_calls:
  assumes "indexBatch w tr chunks = (tr', err)"
  shows "embed_calls tr' = embed_calls tr @ [chunks]
       \<and> chunked_files tr' = chunked_files tr \<and> delete_calls tr' = delete_calls tr
       \<and> status_calls tr' = status_calls tr \<and> save_calls tr' = save_calls tr
       \<and> (\<exists>ps. upsert_calls tr' = upsert_calls tr @ ps
               \<and> (\<forall>points \<in> set ps. map Payload points = chunks))"
proof (cases "EmbedBatch w tr (map embed_text chunks)")
  case (Inl e)
  then show ?thesis using assms by (auto simp: indexBatch_def Let_def calls_defs)
next
  case (Inr vs)
  show ?thesis
  proof (cases "length vs < length chunks")
    case True
    then show ?thesis using assms Inr by (auto simp: indexBatch_def Let_def calls_defs)
  next
    case False
    let ?points = "map (\<lambda>(chunk, v). \<lparr>Vector = v, Payload = chunk\<rparr>) (zip chunks vs)"
    have tr': "tr' = tr @ [EvEmbedBatch chunks, EvUpsert ?points]"
      using assms Inr False by (auto simp: indexBatch_def Let_def)
    have "map Payload ?points = chunks"
      using points_Payload [of chunks vs] False by simp
    then have "upsert_calls tr' = upsert_calls tr @ [?points]
               \<and> (\<forall>points \<in> set [?points]. map Payload points = chunks)"
      using tr' by (simp add: calls_defs)
    then show ?thesis using tr' by (auto simp: calls_defs)
  qed
qed

lemma reindex_chunks_exists:
  "c \<in> set (concat (map (reindex_chunks w) filePaths)) \<Longrightarrow> \<not> StatNotExist w (FilePath c)"
proof -
  assume "c \<in> set (concat (map (reindex_chunks w) filePaths))"
  then obtain q where q: "c \<in> set (reindex_chunks w q)" by auto
  then have "FilePath c = q" using reindex_chunks_FilePath by blast
  moreover have "\<not> StatNotExist w q" using q by (auto simp: reindex_chunks_def split: if_splits)
  ultimately show ?thesis by simp
qed

lemmas reindex_eval =
  ReindexFiles_def gone_world_def calm_world_def indexBatch_def chunk_eval calls_defs
  reindex_chunks_def

text \<open>
  C8. In a reindex request every requested entry gets exactly one delete call, in the
  order of the request. A path that does not exist on disk is never chunked, and no
  chunk embedded or point upserted carries it. The call ends otherwise than with nil
  (with an error or a panic) only when the final batch was sent to the embedder, so a
  missing path is no error; and if no requested path yields chunks the call returns nil
  without any embedding or upsert call.
\<close>

theorem ReindexFiles_missing_path:
  assumes "ReindexFiles w filePaths = (tr, err)"
  shows "delete_calls tr = filePaths
       \<and> (\<forall>p. StatNotExist w p \<longrightarrow>
              p \<notin> set (chunked_files tr)
            \<and> (\<forall>cs \<in> set (embed_calls tr). \<forall>c \<in> set cs. FilePath c \<noteq> p)
            \<and> (\<forall>ps \<in> set (upsert_calls tr). \<forall>pt \<in> set ps. FilePath (Payload pt) \<noteq> p))
       \<and> (err \<noteq> Ok \<longrightarrow> embed_calls tr \<noteq> [])
       \<and> (concat (map (reindex_chunks w) filePaths) = [] \<longrightarrow>
              err = Ok \<and> embed_calls tr = [] \<and> upsert_calls tr = [])"
proof -
  let ?all = "concat (map (reindex_chunks w) filePaths)"
  obtain tr0 allChunks d i where
    loop: "reindex_loop w filePaths ([], [], 0, 0) = (tr0, allChunks, d, i)"
    by (metis prod_cases4)
  have eff: "delete_calls tr0 = filePaths"
    "chunked_files tr0 = filter (\<lambda>p. \<not> StatNotExist w p) filePaths"
    "embed_calls tr0 = []" "upsert_calls tr0 = []" "allChunks = ?all"
    using reindex_loop_effect [OF loop] by (simp_all add: calls_defs)
  show ?thesis
  proof (cases "allChunks = []")
    case True
    then have "tr = tr0" "err = Ok"
      using assms loop by (simp_all add: ReindexFiles_def)
    then show ?thesis using eff by auto
  next
    case False
    obtain tr1 err1 where ib: "indexBatch w tr0 allChunks = (tr1, err1)"
      by (cases "indexBatch w tr0 allChunks")
    have tr: "tr = tr1"
      using assms loop ib False by (auto simp: ReindexFiles_def split: outcome.splits)
    obtain ps where calls: "embed_calls tr1 = [allChunks]" "chunked_files tr1 = chunked_files tr0"
      "delete_calls tr1 = delete_calls tr0" "upsert_calls tr1 = ps"
      "\<forall>points \<in> set ps. map Payload points = allChunks"
      using indexBatch_calls [OF ib] eff(3,4) by auto
    have nochunk: "\<forall>c \<in> set allChunks. \<not> StatNotExist w (FilePath c)"
      using reindex_chunks_exists eff(5) by blast
    have nopoint: "\<forall>points \<in> set ps. \<forall>pt \<in> set points. \<not> StatNotExist w (FilePath (Payload pt))"
    proof (intro ballI)
      fix points pt assume "points \<in> set ps" "pt \<in> set points"
      then have "Payload pt \<in> set allChunks" using calls(5) by (metis image_eqI set_map)
      then show "\<not> StatNotExist w (FilePath (Payload pt))" using nochunk by blast
    qed
    show ?thesis
      using tr calls eff False nochunk nopoint by auto
  qed
qed

theorem ReindexFiles_missing_path_witness:
  "delete_calls (fst (ReindexFiles gone_world [''gone.go'', ''a.go''])) = [''gone.go'', ''a.go'']
   \<and> StatNotExist gone_world ''gone.go''
   \<and> ''gone.go'' \<notin> set (chunked_files (fst (ReindexFiles gone_world [''gone.go'', ''a.go''])))
   \<and> chunked_files (fst (ReindexFiles gone_world [''gone.go'', ''a.go''])) = [''a.go'']
   \<and> snd (ReindexFiles gone_world [''gone.go'']) = Ok
   \<and> embed_calls (fst (ReindexFiles gone_world [''gone.go''])) = []
   \<and> upsert_calls (fst (ReindexFiles gone_world [''gone.go''])) = []"
proof -
  have gone: "StatNotExist gone_world ''gone.go''"
    by (simp add: gone_world_def calm_world_def)
  have none: "concat (map (reindex_chunks gone_world) [''gone.go'']) = []"
    by (simp add: reindex_chunks_def gone_world_def calm_world_def)
  have chunked: "chunked_files (fst (ReindexFiles gone_world [''gone.go'', ''a.go''])) = [''a.go'']"
    by (simp add: reindex_eval)
  show ?thesis
    using ReindexFiles_missing_path [OF surjective_pairing, of gone_world "[''gone.go'', ''a.go'']"]
      ReindexFiles_missing_path [OF surjective_pairing, of gone_world "[''gone.go'']"]
      gone none chunked
    by blast
qed

section \<open>Properties of the IndexingPipeline\<close>

lemmas trace_defs = calls_defs mark_calls_def

lemma set_FilePath_same:
  "\<forall>c \<in> set chunks. FilePath c = filePath \<Longrightarrow> map (\<lambda>c. c\<lparr>FilePath := filePath\<rparr>) chunks = chunks"
  by (induction chunks) auto

lemma file_chunks_FilePath: "\<forall>c \<in> set (file_chunks w filePath). FilePath c = filePath"
proof (cases "chunkFile w filePath")
  case (Inl err)
  then show ?thesis by (simp add: file_chunks_def)
next
  case (Inr chunks)
  then show ?thesis using chunkFile_FilePath [OF Inr] by (simp add: file_chunks_def)
qed

lemma IsFileProcessed_Mark [simp]:
  "IsFileProcessed (MarkFileProcessed s filePath n) f \<longleftrightarrow> f = filePath \<or> IsFileProcessed s f"
  by (simp add: IsFileProcessed_def MarkFileProcessed_def)

lemma IsFileProcessed_Failed [simp]:
  "IsFileProcessed (MarkFileFailed s filePath msg) f \<longleftrightarrow> IsFileProcessed s f"
  by (simp add: IsFileProcessed_def MarkFileFailed_def)

lemma Mark_fields [simp]:
  "IndexedFiles (MarkFileProcessed s filePath n) = IndexedFiles s + 1"
  "TotalChunks (MarkFileProcessed s filePath n) = TotalChunks s + n"
  "Status (MarkFileProcessed s filePath n) = Status s"
  "RootPath (MarkFileProcessed s filePath n) = RootPath s"
  "IndexedFiles (MarkFileFailed s filePath msg) = IndexedFiles s"
  "TotalChunks (MarkFileFailed s filePath msg) = TotalChunks s"
  "Status (MarkFileFailed s filePath msg) = Status s"
  "RootPath (MarkFileFailed s filePath msg) = RootPath s"
  by (simp_all add: MarkFileProcessed_def MarkFileFailed_def)

lemma chunk_files_effect:
  assumes "chunk_files w files (s, tr, allChunks) = (s', tr', allChunks')"
  shows "allChunks' = allChunks @ concat (map (file_chunks w) files)
       \<and> (\<exists>marks. tr' = tr @ marks
              \<and> chunked_files marks = files
              \<and> mark_calls marks
                  = map (\<lambda>f. (f, int (length (file_chunks w f)))) (filter (chunks_ok w) files)
              \<and> embed_calls marks = [] \<and> upsert_calls marks = [] \<and> delete_calls marks = []
              \<and> status_calls marks = [] \<and> save_calls marks = [])
       \<and> (\<forall>f. IsFileProcessed s' f \<longleftrightarrow> IsFileProcessed s f \<or> (f \<in> set files \<and> chunks_ok w f))
       \<and> IndexedFiles s' = IndexedFiles s + int (length (filter (chunks_ok w) files))
       \<and> TotalChunks s' = TotalChunks s + int (length (concat (map (file_chunks w) files)))
       \<and> Status s' = Status s \<and> RootPath s' = RootPath s"
  using assms
proof (induction files arbitrary: s tr allChunks)
  case Nil
  then show ?case by (simp add: trace_defs)
next
  case (Cons filePath files)
  show ?case
  proof (cases "chunkFile w filePath")
    case (Inl err)
    let ?s1 = "MarkFileFailed s filePath (Error err)"
    let ?ev = "[EvChunkFile filePath, EvMarkFailed filePath (Error err)]"
    have run: "chunk_files w files (?s1, tr @ ?ev, allChunks) = (s', tr', allChunks')"
      using Cons.prems Inl by simp
    have no: "\<not> chunks_ok w filePath" "file_chunks w filePath = []"
      using Inl by (simp_all add: chunks_ok_def file_chunks_def)
    from Cons.IH [OF run] obtain marks where ih:
      "allChunks' = allChunks @ concat (map (file_chunks w) files)"
      "tr' = (tr @ ?ev) @ marks" "chunked_files marks = files"
      "mark_calls marks = map (\<lambda>f. (f, int (length (file_chunks w f)))) (filter (chunks_ok w) files)"
      "embed_calls marks = []" "upsert_calls marks = []" "delete_calls marks = []"
      "status_calls marks = []" "save_calls marks = []"
      "\<forall>f. IsFileProcessed s' f \<longleftrightarrow> IsFileProcessed ?s1 f \<or> (f \<in> set files \<and> chunks_ok w f)"
      "IndexedFiles s' = IndexedFiles ?s1 + int (length (filter (chunks_ok w) files))"
      "TotalChunks s' = TotalChunks ?s1 + int (length (concat (map (file_chunks w) files)))"
      "Status s' = Status ?s1" "RootPath s' = RootPath ?s1"
      by blast
    have ex: "\<exists>marks'. tr' = tr @ marks'
              \<and> chunked_files marks' = filePath # files
              \<and> mark_calls marks'
                  = map (\<lambda>f. (f, int (length (file_chunks w f)))) (filter (chunks_ok w) (filePath # files))
              \<and> embed_calls marks' = [] \<and> upsert_calls marks' = [] \<and> delete_calls marks' = []
              \<and> status_calls marks' = [] \<and> save_calls marks' = []"
      using ih(2-9) no by (intro exI [of _ "?ev @ marks"]) (simp add: trace_defs)
    show ?thesis
      using ex ih(1,10-14) no by auto
  next
    case (Inr chunks)
    let ?n = "int (length chunks)"
    let ?s1 = "MarkFileProcessed s filePath ?n"
    let ?ev = "[EvChunkFile filePath, EvMarkProcessed filePath ?n]"
    have same: "map (\<lambda>c. c\<lparr>FilePath := filePath\<rparr>) chunks = chunks"
      using chunkFile_FilePath [OF Inr] by (rule set_FilePath_same)
    have run: "chunk_files w files (?s1, tr @ ?ev, allChunks @ chunks) = (s', tr', allChunks')"
      using Cons.prems Inr same by (cases "chunks = []") simp_all
    have yes: "chunks_ok w filePath" "file_chunks w filePath = chunks"
      using Inr by (simp_all add: chunks_ok_def file_chunks_def)
    from Cons.IH [OF run] obtain marks where ih:
      "allChunks' = (allChunks @ chunks) @ concat (map (file_chunks w) files)"
      "tr' = (tr @ ?ev) @ marks" "chunked_files marks = files"
      "mark_calls marks = map (\<lambda>f. (f, int (length (file_chunks w f)))) (filter (chunks_ok w) files)"
      "embed_calls marks = []" "upsert_calls marks = []" "delete_calls marks = []"
      "status_calls marks = []" "save_calls marks = []"
      "\<forall>f. IsFileProcessed s' f \<longleftrightarrow> IsFileProcessed ?s1 f \<or> (f \<in> set files \<and> chunks_ok w f)"
      "IndexedFiles s' = IndexedFiles ?s1 + int (length (filter (chunks_ok w) files))"
      "TotalChunks s' = TotalChunks ?s1 + int (length (concat (map (file_chunks w) files)))"
      "Status s' = Status ?s1" "RootPath s' = RootPath ?s1"
      by blast
    have ex: "\<exists>marks'. tr' = tr @ marks'
              \<and> chunked_files marks' = filePath # files
              \<and> mark_calls marks'
                  = map (\<lambda>f. (f, int (length (file_chunks w f)))) (filter (chunks_ok w) (filePath # files))
              \<and> embed_calls marks' = [] \<and> upsert_calls marks' = [] \<and> delete_calls marks' = []
              \<and> status_calls marks' = [] \<and> save_calls marks' = []"
      using ih(2-9) yes by (intro exI [of _ "?ev @ marks"]) (simp add: trace_defs)
    show ?thesis
      using ex ih(1,10-14) yes by auto
  qed
qed


lemma indexBatch_effect:
  assumes "indexBatch w tr chunks = (tr', err)"
  shows "\<exists>calls. tr' = tr @ calls \<and> embed_calls calls = [chunks]
           \<and> chunked_files calls = [] \<and> mark_calls calls = [] \<and> delete_calls calls = []
           \<and> status_calls calls = [] \<and> save_calls calls = []
           \<and> (\<forall>points \<in> set (upsert_calls calls). map Payload points = chunks)
           \<and> ((\<exists>e. EmbedBatch w tr (map embed_text chunks) = Inl e) \<longrightarrow>
                  (\<exists>e. err = Failed e) \<and> upsert_calls calls = [])
           \<and> ((\<exists>vs. EmbedBatch w tr (map embed_text chunks) = Inr vs
                     \<and> length vs < length chunks) \<longrightarrow>
                  err = Panicked \<and> upsert_calls calls = [])
           \<and> (err = Panicked \<longrightarrow> \<not> never_short w)
           \<and> (embeds_all w \<longrightarrow> upsert_calls calls \<noteq> [])"
proof (cases "EmbedBatch w tr (map embed_text chunks)")
  case (Inl e)
  then have r: "tr' = tr @ [EvEmbedBatch chunks]" "err = Failed e"
    using assms by (auto simp: indexBatch_def Let_def)
  have "\<not> embeds_all w"
    unfolding embeds_all_def using Inl by (metis sum.distinct(1))
  then show ?thesis
    using r Inl by (intro exI [of _ "[EvEmbedBatch chunks]"]) (simp add: trace_defs)
next
  case (Inr vs)
  show ?thesis
  proof (cases "length vs < length chunks")
    case True
    then have r: "tr' = tr @ [EvEmbedBatch chunks]" "err = Panicked"
      using assms Inr by (auto simp: indexBatch_def Let_def)
    have short: "\<not> length (map embed_text chunks) \<le> length vs" using True by simp
    have ns: "\<not> never_short w"
      unfolding never_short_def using Inr short by blast
    have "\<not> embeds_all w"
      unfolding embeds_all_def using Inr short by (metis sum.inject(2))
    then show ?thesis
      using r Inr True ns by (intro exI [of _ "[EvEmbedBatch chunks]"]) (simp add: trace_defs)
  next
    case False
    let ?points = "map (\<lambda>(chunk, v). \<lparr>Vector = v, Payload = chunk\<rparr>) (zip chunks vs)"
    have tr': "tr' = tr @ [EvEmbedBatch chunks, EvUpsert ?points]"
      using assms Inr False by (auto simp: indexBatch_def Let_def)
    have err: "err \<noteq> Panicked"
      using assms Inr False by (auto simp: indexBatch_def Let_def split: option.splits)
    have "map Payload ?points = chunks"
      using points_Payload [of chunks vs] False by simp
    then show ?thesis
      using tr' Inr False err
      by (intro exI [of _ "[EvEmbedBatch chunks, EvUpsert ?points]"]) (simp add: trace_defs)
  qed
qed

lemma set_chunk_batch: "set (chunk_batch allChunks i) \<subseteq> set allChunks"
  unfolding chunk_batch_def
  by (meson set_take_subset set_drop_subset subset_trans)

lemma index_chunks_effect:
  assumes "index_chunks w allChunks i tr = (tr', err)"
  shows "\<exists>calls. tr' = tr @ calls
           \<and> chunked_files calls = [] \<and> mark_calls calls = [] \<and> delete_calls calls = []
           \<and> status_calls calls = [] \<and> save_calls calls = []
           \<and> (\<forall>cs \<in> set (embed_calls calls). set cs \<subseteq> set allChunks)
           \<and> (\<forall>points \<in> set (upsert_calls calls). \<forall>pt \<in> set points. Payload pt \<in> set allChunks)
           \<and> (i < length allChunks \<longrightarrow> embed_calls calls \<noteq> []
                \<and> ((\<exists>e. EmbedBatch w tr (map embed_text (chunk_batch allChunks i)) = Inl e) \<longrightarrow>
                      (\<exists>e. err = Failed e) \<and> upsert_calls calls = [])
                \<and> ((\<exists>vs. EmbedBatch w tr (map embed_text (chunk_batch allChunks i)) = Inr vs
                          \<and> length vs < length (chunk_batch allChunks i)) \<longrightarrow>
                      err = Panicked \<and> upsert_calls calls = [])
                \<and> (embeds_all w \<longrightarrow> upsert_calls calls \<noteq> []))
           \<and> (err = Panicked \<longrightarrow> \<not> never_short w)"
  using assms
proof (induction "length allChunks - i" arbitrary: i tr rule: less_induct)
  case less
  show ?case
  proof (cases "i < length allChunks")
    case False
    then have "tr' = tr" "err = Ok" using less.prems by (simp_all add: index_chunks.simps)
    then show ?thesis using False by (intro exI [of _ "[]"]) (simp add: trace_defs)
  next
    case True
    let ?batch = "chunk_batch allChunks i"
    obtain tr1 e1 where ib: "indexBatch w tr ?batch = (tr1, e1)"
      by (cases "indexBatch w tr ?batch")
    from indexBatch_effect [OF ib] obtain c1 where c1:
      "tr1 = tr @ c1" "embed_calls c1 = [?batch]"
      "chunked_files c1 = []" "mark_calls c1 = []" "delete_calls c1 = []"
      "status_calls c1 = []" "save_calls c1 = []"
      "\<forall>points \<in> set (upsert_calls c1). map Payload points = ?batch"
      "(\<exists>e. EmbedBatch w tr (map embed_text ?batch) = Inl e) \<longrightarrow>
         (\<exists>e. e1 = Failed e) \<and> upsert_calls c1 = []"
      "(\<exists>vs. EmbedBatch w tr (map embed_text ?batch) = Inr vs \<and> length vs < length ?batch) \<longrightarrow>
         e1 = Panicked \<and> upsert_calls c1 = []"
      "e1 = Panicked \<longrightarrow> \<not> never_short w"
      "embeds_all w \<longrightarrow> upsert_calls c1 \<noteq> []"
      by (elim exE conjE) (rule that; assumption)
    have pay: "\<forall>points \<in> set (upsert_calls c1). \<forall>pt \<in> set points. Payload pt \<in> set allChunks"
    proof (intro ballI)
      fix points pt assume "points \<in> set (upsert_calls c1)" "pt \<in> set points"
      then have "Payload pt \<in> set ?batch" using c1(8) by (metis image_eqI set_map)
      then show "Payload pt \<in> set allChunks" using set_chunk_batch by blast
    qed
    have emb1: "\<forall>cs \<in> set (embed_calls c1). set cs \<subseteq> set allChunks"
      using c1(2) set_chunk_batch [of allChunks i] by simp
    show ?thesis
    proof (cases "e1 = Ok")
      case False
      then have stop: "tr' = tr1"
        "err = (case e1 of Failed e \<Rightarrow> Failed (Err (''failed to index chunk batch: '' @ Error e))
                | other \<Rightarrow> other)"
        using less.prems True ib
        by (auto simp: index_chunks.simps [of w allChunks i tr] chunk_batch_def Let_def
                 split: outcome.splits)
      have e: "(\<exists>e. e1 = Failed e) \<longrightarrow> (\<exists>e. err = Failed e)" "e1 = Panicked \<longleftrightarrow> err = Panicked"
        using stop(2) False by (auto split: outcome.splits)
      have first: "i < length allChunks \<longrightarrow> embed_calls c1 \<noteq> []
                \<and> ((\<exists>e. EmbedBatch w tr (map embed_text ?batch) = Inl e) \<longrightarrow>
                      (\<exists>e. err = Failed e) \<and> upsert_calls c1 = [])
                \<and> ((\<exists>vs. EmbedBatch w tr (map embed_text ?batch) = Inr vs
                          \<and> length vs < length ?batch) \<longrightarrow>
                      err = Panicked \<and> upsert_calls c1 = [])
                \<and> (embeds_all w \<longrightarrow> upsert_calls c1 \<noteq> [])"
        using c1(2,9,10,12) e by simp
      have pan: "err = Panicked \<longrightarrow> \<not> never_short w" using c1(11) e(2) by simp
      have t: "tr' = tr @ c1" using stop(1) c1(1) by simp
      show ?thesis
        apply (rule exI [of _ c1])
        apply (intro conjI)
        apply (rule t)
        apply (rule c1(3))
        apply (rule c1(4))
        apply (rule c1(5))
        apply (rule c1(6))
        apply (rule c1(7))
        apply (rule emb1)
        apply (rule pay)
        apply (rule first)
        apply (rule pan)
        done
    next
      case ok: True
      then have run: "index_chunks w allChunks (i + ChunkBatchSize) (tr1 @ [EvSleep]) = (tr', err)"
        using less.prems True ib
        by (auto simp: index_chunks.simps [of w allChunks i tr] chunk_batch_def Let_def)
      have dec: "length allChunks - (i + ChunkBatchSize) < length allChunks - i"
        using True by (simp add: ChunkBatchSize_def)
      from less.hyps [OF dec run] obtain c2 where c2:
        "tr' = (tr1 @ [EvSleep]) @ c2"
        "chunked_files c2 = []" "mark_calls c2 = []" "delete_calls c2 = []"
        "status_calls c2 = []" "save_calls c2 = []"
        "\<forall>cs \<in> set (embed_calls c2). set cs \<subseteq> set allChunks"
        "\<forall>points \<in> set (upsert_calls c2). \<forall>pt \<in> set points. Payload pt \<in> set allChunks"
        "err = Panicked \<longrightarrow> \<not> never_short w"
        by blast
      let ?calls = "c1 @ [EvSleep] @ c2"
      have noinl: "\<not> (\<exists>e. EmbedBatch w tr (map embed_text ?batch) = Inl e)"
        using c1(9) ok by auto
      have noshort: "\<not> (\<exists>vs. EmbedBatch w tr (map embed_text ?batch) = Inr vs
                          \<and> length vs < length ?batch)"
        using c1(10) ok by auto
      have t: "tr' = tr @ ?calls" using c2(1) c1(1) by simp
      have k1: "chunked_files ?calls = []" "mark_calls ?calls = []" "delete_calls ?calls = []"
        "status_calls ?calls = []" "save_calls ?calls = []"
        using c1(3-7) c2(2-6) by (simp_all add: trace_defs)
      have k2: "\<forall>cs \<in> set (embed_calls ?calls). set cs \<subseteq> set allChunks"
        using emb1 c2(7) by (auto simp: trace_defs)
      have k3: "\<forall>points \<in> set (upsert_calls ?calls). \<forall>pt \<in> set points. Payload pt \<in> set allChunks"
        using pay c2(8) by (auto simp: trace_defs)
      have ne: "embed_calls ?calls \<noteq> []" using c1(2) by (simp add: trace_defs)
      have ups: "embeds_all w \<longrightarrow> upsert_calls ?calls \<noteq> []"
        using c1(12) by (simp add: trace_defs)
      have first: "i < length allChunks \<longrightarrow> embed_calls ?calls \<noteq> []
                \<and> ((\<exists>e. EmbedBatch w tr (map embed_text ?batch) = Inl e) \<longrightarrow>
                      (\<exists>e. err = Failed e) \<and> upsert_calls ?calls = [])
                \<and> ((\<exists>vs. EmbedBatch w tr (map embed_text ?batch) = Inr vs
                          \<and> length vs < length ?batch) \<longrightarrow>
                      err = Panicked \<and> upsert_calls ?calls = [])
                \<and> (embeds_all w \<longrightarrow> upsert_calls ?calls \<noteq> [])"
        using ne noinl noshort ups by blast
      show ?thesis
        apply (rule exI [of _ ?calls])
        apply (intro conjI)
        apply (rule t)
        apply (rule k1(1))
        apply (rule k1(2))
        apply (rule k1(3))
        apply (rule k1(4))
        apply (rule k1(5))
        apply (rule k2)
        apply (rule k3)
        apply (rule first)
        apply (rule c2(9))
        done
    qed
  qed
qed

lemma batch_chunks_FilePath: "c \<in> set (batch_chunks w files) \<Longrightarrow> FilePath c \<in> set files"
  using file_chunks_FilePath by (fastforce simp: batch_chunks_def)

lemma processBatch_effect:
  assumes "processBatch w s tr files = (s', tr', err)"
  shows "\<exists>marks calls. tr' = tr @ marks @ calls
           \<and> chunked_files marks = files
           \<and> mark_calls marks
               = map (\<lambda>f. (f, int (length (file_chunks w f)))) (filter (chunks_ok w) files)
           \<and> embed_calls marks = [] \<and> upsert_calls marks = [] \<and> delete_calls marks = []
           \<and> status_calls marks = [] \<and> save_calls marks = []
           \<and> chunked_files calls = [] \<and> mark_calls calls = [] \<and> delete_calls calls = []
           \<and> status_calls calls = [] \<and> save_calls calls = []
           \<and> (\<forall>cs \<in> set (embed_calls calls). set cs \<subseteq> set (batch_chunks w files))
           \<and> (\<forall>points \<in> set (upsert_calls calls). \<forall>pt \<in> set points.
                  Payload pt \<in> set (batch_chunks w files))
           \<and> (batch_chunks w files = [] \<longrightarrow> calls = [] \<and> err = Ok)
           \<and> (batch_chunks w files \<noteq> [] \<longrightarrow> embed_calls calls \<noteq> []
                \<and> ((\<exists>e. EmbedBatch w (tr @ marks)
                            (map embed_text (chunk_batch (batch_chunks w files) 0)) = Inl e) \<longrightarrow>
                      (\<exists>e. err = Failed e) \<and> upsert_calls calls = [])
                \<and> ((\<exists>vs. EmbedBatch w (tr @ marks)
                            (map embed_text (chunk_batch (batch_chunks w files) 0)) = Inr vs
                          \<and> length vs < length (chunk_batch (batch_chunks w files) 0)) \<longrightarrow>
                      err = Panicked \<and> upsert_calls calls = [])
                \<and> (embeds_all w \<longrightarrow> upsert_calls calls \<noteq> []))
           \<and> (err = Panicked \<longrightarrow> \<not> never_short w)
           \<and> (\<forall>f. IsFileProcessed s' f \<longleftrightarrow> IsFileProcessed s f \<or> (f \<in> set files \<and> chunks_ok w f))
           \<and> IndexedFiles s' = IndexedFiles s + int (length (filter (chunks_ok w) files))
           \<and> TotalChunks s' = TotalChunks s + int (length (batch_chunks w files))
           \<and> Status s' = Status s \<and> RootPath s' = RootPath s"
proof -
  let ?all = "batch_chunks w files"
  obtain s1 tr1 all1 where cf: "chunk_files w files (s, tr, []) = (s1, tr1, all1)"
    by (metis prod_cases3)
  from chunk_files_effect [OF cf] obtain marks where m:
    "all1 = ?all" "tr1 = tr @ marks" "chunked_files marks = files"
    "mark_calls marks = map (\<lambda>f. (f, int (length (file_chunks w f)))) (filter (chunks_ok w) files)"
    "embed_calls marks = []" "upsert_calls marks = []" "delete_calls marks = []"
    "status_calls marks = []" "save_calls marks = []"
    "\<forall>f. IsFileProcessed s1 f \<longleftrightarrow> IsFileProcessed s f \<or> (f \<in> set files \<and> chunks_ok w f)"
    "IndexedFiles s1 = IndexedFiles s + int (length (filter (chunks_ok w) files))"
    "TotalChunks s1 = TotalChunks s + int (length ?all)"
    "Status s1 = Status s" "RootPath s1 = RootPath s"
    by (auto simp: batch_chunks_def)
  show ?thesis
  proof (cases "?all = []")
    case True
    then have "s' = s1" "tr' = tr1" "err = Ok"
      using assms cf m(1) by (simp_all add: processBatch_def)
    then show ?thesis
      using m True
      by (intro exI [of _ marks] exI [of _ "[]"]) (simp add: trace_defs)
  next
    case False
    obtain tr2 e2 where ic: "index_chunks w ?all 0 tr1 = (tr2, e2)"
      by (cases "index_chunks w ?all 0 tr1")
    have res: "s' = s1" "tr' = tr2" "err = e2"
      using assms cf m(1) ic False by (simp_all add: processBatch_def)
    have pos: "0 < length ?all" using False by simp
    from index_chunks_effect [OF ic] obtain calls where c0:
      "tr2 = tr1 @ calls"
      "chunked_files calls = []" "mark_calls calls = []" "delete_calls calls = []"
      "status_calls calls = []" "save_calls calls = []"
      "\<forall>cs \<in> set (embed_calls calls). set cs \<subseteq> set ?all"
      "\<forall>points \<in> set (upsert_calls calls). \<forall>pt \<in> set points. Payload pt \<in> set ?all"
      "0 < length ?all \<longrightarrow> embed_calls calls \<noteq> []
          \<and> ((\<exists>e. EmbedBatch w tr1 (map embed_text (chunk_batch ?all 0)) = Inl e) \<longrightarrow>
                (\<exists>e. e2 = Failed e) \<and> upsert_calls calls = [])
          \<and> ((\<exists>vs. EmbedBatch w tr1 (map embed_text (chunk_batch ?all 0)) = Inr vs
                    \<and> length vs < length (chunk_batch ?all 0)) \<longrightarrow>
                e2 = Panicked \<and> upsert_calls calls = [])
          \<and> (embeds_all w \<longrightarrow> upsert_calls calls \<noteq> [])"
      "e2 = Panicked \<longrightarrow> \<not> never_short w"
      by (elim exE conjE) (rule that; assumption)
    have first: "?all \<noteq> [] \<longrightarrow> embed_calls calls \<noteq> []
          \<and> ((\<exists>e. EmbedBatch w (tr @ marks) (map embed_text (chunk_batch ?all 0)) = Inl e) \<longrightarrow>
                (\<exists>e. err = Failed e) \<and> upsert_calls calls = [])
          \<and> ((\<exists>vs. EmbedBatch w (tr @ marks) (map embed_text (chunk_batch ?all 0)) = Inr vs
                    \<and> length vs < length (chunk_batch ?all 0)) \<longrightarrow>
                err = Panicked \<and> upsert_calls calls = [])
          \<and> (embeds_all w \<longrightarrow> upsert_calls calls \<noteq> [])"
      using c0(9) pos m(2) res(3) by simp
    have none: "?all = [] \<longrightarrow> calls = [] \<and> err = Ok" using False by simp
    have pan: "err = Panicked \<longrightarrow> \<not> never_short w" using c0(10) res(3) by simp
    have t: "tr' = tr @ marks @ calls" using res(2) c0(1) m(2) by simp
    have st: "\<forall>f. IsFileProcessed s' f \<longleftrightarrow> IsFileProcessed s f \<or> (f \<in> set files \<and> chunks_ok w f)"
      "IndexedFiles s' = IndexedFiles s + int (length (filter (chunks_ok w) files))"
      "TotalChunks s' = TotalChunks s + int (length ?all)"
      "Status s' = Status s" "RootPath s' = RootPath s"
      using m(10-14) res(1) by simp_all
    show ?thesis
      apply (rule exI [of _ marks])
      apply (rule exI [of _ calls])
      apply (intro conjI)
      apply (rule t)
      apply (rule m(3))
      apply (rule m(4))
      apply (rule m(5))
      apply (rule m(6))
      apply (rule m(7))
      apply (rule m(8))
      apply (rule m(9))
      apply (rule c0(2))
      apply (rule c0(3))
      apply (rule c0(4))
      apply (rule c0(5))
      apply (rule c0(6))
      apply (rule c0(7))
      apply (rule c0(8))
      apply (rule none)
      apply (rule first)
      apply (rule pan)
      apply (rule st(1))
      apply (rule st(2))
      apply (rule st(3))
      apply (rule st(4))
      apply (rule st(5))
      done
  qed
qed






lemma Save_effect:
  assumes "Save w s dk tr = (e, dk', tr')"
  shows "tr' = tr @ [EvSave s] \<and> (SaveFail w tr s = None \<longrightarrow> dk' = Inr s \<and> e = None)"
  using assms by (auto simp: Save_def split: option.splits)

lemma file_batch_split: "file_batch files i @ drop (i + FileBatchSize) files = drop i files"
proof (cases "i + FileBatchSize > length files")
  case True
  then show ?thesis by (simp add: file_batch_def)
next
  case False
  have "take FileBatchSize (drop i files) @ drop FileBatchSize (drop i files) = drop i files"
    by (rule append_take_drop_id)
  then show ?thesis using False by (simp add: file_batch_def add.commute)
qed

lemma set_file_batch: "set (file_batch files i) \<subseteq> set files"
  unfolding file_batch_def
  by (meson set_take_subset set_drop_subset subset_trans)

lemma batch_chunks_append:
  "batch_chunks w (xs @ ys) = batch_chunks w xs @ batch_chunks w ys"
  by (simp add: batch_chunks_def)

lemma calls_chunked_append: "chunked_files (a @ b) = chunked_files a @ chunked_files b"
  by (simp add: trace_defs)

lemma calls_embed_append: "embed_calls (a @ b) = embed_calls a @ embed_calls b"
  by (simp add: trace_defs)

lemma calls_upsert_append: "upsert_calls (a @ b) = upsert_calls a @ upsert_calls b"
  by (simp add: trace_defs)

lemma batch_loop_effect:
  assumes "batch_loop w files i (s, dk, tr) = (c, s', dk', tr')"
  shows "\<exists>new. tr' = tr @ new
           \<and> set (chunked_files new) \<subseteq> set files
           \<and> (\<forall>cs \<in> set (embed_calls new). \<forall>ch \<in> set cs. FilePath ch \<in> set files)
           \<and> (\<forall>points \<in> set (upsert_calls new). \<forall>pt \<in> set points.
                  FilePath (Payload pt) \<in> set files)
           \<and> status_calls new = [] \<and> delete_calls new = []
           \<and> Status s' = Status s \<and> RootPath s' = RootPath s
           \<and> (\<forall>f. IsFileProcessed s f \<longrightarrow> IsFileProcessed s' f)
           \<and> (c = LoopCancelled \<longrightarrow> (\<exists>tr0. CtxDone w tr0))
           \<and> (c = LoopPanicked \<longrightarrow> \<not> never_short w)
           \<and> (c = LoopDone \<longrightarrow> chunked_files new = drop i files
                 \<and> (batch_chunks w (drop i files) \<noteq> [] \<longrightarrow> embed_calls new \<noteq> []
                       \<and> (embeds_all w \<longrightarrow> upsert_calls new \<noteq> [])))
           \<and> (i < length files \<and> c \<noteq> LoopPanicked \<longrightarrow> new \<noteq> [] \<and> last new = EvSave s'
                 \<and> (SaveFail w (butlast tr') s' = None \<longrightarrow> dk' = Inr s'))
           \<and> (\<not> i < length files \<longrightarrow> new = [] \<and> s' = s \<and> dk' = dk \<and> c = LoopDone)"
  using assms
proof (induction "length files - i" arbitrary: i s dk tr rule: less_induct)
  case less
  show ?case
  proof (cases "i < length files")
    case False
    then have "c = LoopDone" "s' = s" "dk' = dk" "tr' = tr"
      using less.prems by (simp_all add: batch_loop.simps)
    then show ?thesis
      using False by (intro exI [of _ "[]"]) (simp add: trace_defs batch_chunks_def)
  next
    case inb: True
    show ?thesis
    proof (cases "CtxDone w tr")
      case True
      obtain e1 dk1 tr1 where sv: "Save w s dk tr = (e1, dk1, tr1)" by (metis prod_cases3)
      have res: "c = LoopCancelled" "s' = s" "dk' = dk1" "tr' = tr1"
        using less.prems inb True sv by (simp_all add: batch_loop.simps [of w files i s dk tr])
      have tr1: "tr1 = tr @ [EvSave s]" "SaveFail w tr s = None \<longrightarrow> dk1 = Inr s"
        using Save_effect [OF sv] by auto
      show ?thesis
        using res tr1 True inb
        by (intro exI [of _ "[EvSave s]"]) (auto simp: trace_defs)
    next
      case False
      let ?batch = "file_batch files i"
      obtain s1 tr1 e1 where pb: "processBatch w s tr ?batch = (s1, tr1, e1)"
        by (metis prod_cases3)
      from processBatch_effect [OF pb] obtain marks calls where p0:
        "tr1 = tr @ marks @ calls" "chunked_files marks = ?batch"
        "mark_calls marks
           = map (\<lambda>f. (f, int (length (file_chunks w f)))) (filter (chunks_ok w) ?batch)"
        "embed_calls marks = []" "upsert_calls marks = []" "delete_calls marks = []"
        "status_calls marks = []" "save_calls marks = []"
        "chunked_files calls = []" "mark_calls calls = []" "delete_calls calls = []"
        "status_calls calls = []" "save_calls calls = []"
        "\<forall>cs \<in> set (embed_calls calls). set cs \<subseteq> set (batch_chunks w ?batch)"
        "\<forall>points \<in> set (upsert_calls calls). \<forall>pt \<in> set points.
            Payload pt \<in> set (batch_chunks w ?batch)"
        "batch_chunks w ?batch = [] \<longrightarrow> calls = [] \<and> e1 = Ok"
        "batch_chunks w ?batch \<noteq> [] \<longrightarrow> embed_calls calls \<noteq> []
           \<and> ((\<exists>e. EmbedBatch w (tr @ marks)
                       (map embed_text (chunk_batch (batch_chunks w ?batch) 0)) = Inl e) \<longrightarrow>
                 (\<exists>e. e1 = Failed e) \<and> upsert_calls calls = [])
           \<and> ((\<exists>vs. EmbedBatch w (tr @ marks)
                       (map embed_text (chunk_batch (batch_chunks w ?batch) 0)) = Inr vs
                     \<and> length vs < length (chunk_batch (batch_chunks w ?batch) 0)) \<longrightarrow>
                 e1 = Panicked \<and> upsert_calls calls = [])
           \<and> (embeds_all w \<longrightarrow> upsert_calls calls \<noteq> [])"
        "e1 = Panicked \<longrightarrow> \<not> never_short w"
        "\<forall>f. IsFileProcessed s1 f \<longleftrightarrow> IsFileProcessed s f \<or> (f \<in> set ?batch \<and> chunks_ok w f)"
        "IndexedFiles s1 = IndexedFiles s + int (length (filter (chunks_ok w) ?batch))"
        "TotalChunks s1 = TotalChunks s + int (length (batch_chunks w ?batch))"
        "Status s1 = Status s" "RootPath s1 = RootPath s"
        by (elim exE conjE) (rule that; assumption)
      have p12: "batch_chunks w ?batch \<noteq> [] \<longrightarrow> embed_calls calls \<noteq> []"
        and p12u: "batch_chunks w ?batch \<noteq> [] \<longrightarrow> embeds_all w \<longrightarrow> upsert_calls calls \<noteq> []"
        using p0(17) by simp_all
      have paths: "\<forall>ch \<in> set (batch_chunks w ?batch). FilePath ch \<in> set files"
        using batch_chunks_FilePath set_file_batch by blast
      have pe: "\<forall>cs \<in> set (embed_calls calls). \<forall>ch \<in> set cs. FilePath ch \<in> set files"
        using p0(14) paths by blast
      have pu: "\<forall>points \<in> set (upsert_calls calls). \<forall>pt \<in> set points.
                  FilePath (Payload pt) \<in> set files"
        using p0(15) paths by blast
      have kept: "\<forall>f. IsFileProcessed s f \<longrightarrow> IsFileProcessed s1 f" using p0(19) by simp
      show ?thesis
      proof (cases "e1 = Panicked")
        case True
        have res: "c = LoopPanicked" "s' = s1" "dk' = dk" "tr' = tr1"
          using less.prems inb False pb True
          by (simp_all add: batch_loop.simps [of w files i s dk tr] file_batch_def Let_def)
        let ?new = "marks @ calls"
        have t: "tr' = tr @ ?new" using res(4) p0(1) by simp
        have a: "set (chunked_files ?new) \<subseteq> set files"
          using p0(2,9) set_file_batch [of files i] by (simp add: calls_chunked_append)
        have b: "\<forall>cs \<in> set (embed_calls ?new). \<forall>ch \<in> set cs. FilePath ch \<in> set files"
          using pe p0(4) by (simp add: calls_embed_append)
        have b2: "\<forall>points \<in> set (upsert_calls ?new). \<forall>pt \<in> set points.
                    FilePath (Payload pt) \<in> set files"
          using pu p0(5) by (simp add: calls_upsert_append)
        have d: "status_calls ?new = []" "delete_calls ?new = []"
          using p0(6,7,11,12) by (simp_all add: trace_defs)
        have e: "Status s' = Status s" "RootPath s' = RootPath s"
          "\<forall>f. IsFileProcessed s f \<longrightarrow> IsFileProcessed s' f"
          using p0(22,23) kept res(2) by simp_all
        have f1: "c = LoopCancelled \<longrightarrow> (\<exists>tr0. CtxDone w tr0)" using res(1) by simp
        have f2: "c = LoopPanicked \<longrightarrow> \<not> never_short w" using p0(18) True by simp
        have f3: "c = LoopDone \<longrightarrow> chunked_files ?new = drop i files
                 \<and> (batch_chunks w (drop i files) \<noteq> [] \<longrightarrow> embed_calls ?new \<noteq> []
                       \<and> (embeds_all w \<longrightarrow> upsert_calls ?new \<noteq> []))"
          using res(1) by simp
        have g: "i < length files \<and> c \<noteq> LoopPanicked \<longrightarrow> ?new \<noteq> [] \<and> last ?new = EvSave s'
                 \<and> (SaveFail w (butlast tr') s' = None \<longrightarrow> dk' = Inr s')"
          using res(1) by simp
        have h: "\<not> i < length files \<longrightarrow> ?new = [] \<and> s' = s \<and> dk' = dk \<and> c = LoopDone"
          using inb by simp
        show ?thesis
          apply (rule exI [of _ ?new])
          apply (intro conjI)
          apply (rule t)
          apply (rule a)
          apply (rule b)
          apply (rule b2)
          apply (rule d(1))
          apply (rule d(2))
          apply (rule e(1))
          apply (rule e(2))
          apply (rule e(3))
          apply (rule f1)
          apply (rule f2)
          apply (rule f3)
          apply (rule g)
          apply (rule h)
          done
      next
        case nopanic: False
        obtain e2 dk2 tr2 where sv: "Save w s1 dk tr1 = (e2, dk2, tr2)" by (metis prod_cases3)
        have run: "batch_loop w files (i + FileBatchSize) (s1, dk2, tr2) = (c, s', dk', tr')"
          using less.prems inb False pb sv nopanic
          by (cases e1)
             (simp_all add: batch_loop.simps [of w files i s dk tr] file_batch_def Let_def)
        have dec: "length files - (i + FileBatchSize) < length files - i"
          using inb by (simp add: FileBatchSize_def)
        have tr2: "tr2 = tr1 @ [EvSave s1]" "SaveFail w tr1 s1 = None \<longrightarrow> dk2 = Inr s1"
          using Save_effect [OF sv] by auto
        from less.hyps [OF dec run] obtain rest where r:
          "tr' = tr2 @ rest"
          "set (chunked_files rest) \<subseteq> set files"
          "\<forall>cs \<in> set (embed_calls rest). \<forall>ch \<in> set cs. FilePath ch \<in> set files"
          "\<forall>points \<in> set (upsert_calls rest). \<forall>pt \<in> set points. FilePath (Payload pt) \<in> set files"
          "status_calls rest = []" "delete_calls rest = []"
          "Status s' = Status s1" "RootPath s' = RootPath s1"
          "\<forall>f. IsFileProcessed s1 f \<longrightarrow> IsFileProcessed s' f"
          "c = LoopCancelled \<longrightarrow> (\<exists>tr0. CtxDone w tr0)"
          "c = LoopPanicked \<longrightarrow> \<not> never_short w"
          "c = LoopDone \<longrightarrow> chunked_files rest = drop (i + FileBatchSize) files
             \<and> (batch_chunks w (drop (i + FileBatchSize) files) \<noteq> [] \<longrightarrow> embed_calls rest \<noteq> []
                   \<and> (embeds_all w \<longrightarrow> upsert_calls rest \<noteq> []))"
          "i + FileBatchSize < length files \<and> c \<noteq> LoopPanicked \<longrightarrow> rest \<noteq> []
             \<and> last rest = EvSave s'
             \<and> (SaveFail w (butlast tr') s' = None \<longrightarrow> dk' = Inr s')"
          "\<not> i + FileBatchSize < length files \<longrightarrow> rest = [] \<and> s' = s1 \<and> dk' = dk2 \<and> c = LoopDone"
          by (elim exE conjE) (rule that; assumption)
        let ?new = "marks @ calls @ [EvSave s1] @ rest"
        have t: "tr' = tr @ ?new" using r(1) tr2(1) p0(1) by simp
        have cfn: "chunked_files ?new = ?batch @ chunked_files rest"
          using p0(2,9) by (simp add: trace_defs)
        have emn: "embed_calls ?new = embed_calls calls @ embed_calls rest"
          using p0(4) by (simp add: trace_defs)
        have upn: "upsert_calls ?new = upsert_calls calls @ upsert_calls rest"
          using p0(5) by (simp add: trace_defs)
        have a: "set (chunked_files ?new) \<subseteq> set files"
          using cfn r(2) set_file_batch [of files i] by simp
        have b: "\<forall>cs \<in> set (embed_calls ?new). \<forall>ch \<in> set cs. FilePath ch \<in> set files"
          using pe r(3) unfolding emn by auto
        have b2: "\<forall>points \<in> set (upsert_calls ?new). \<forall>pt \<in> set points.
                    FilePath (Payload pt) \<in> set files"
          using pu r(4) unfolding upn by auto
        have d: "status_calls ?new = []" "delete_calls ?new = []"
          using p0(6,7,11,12) r(5,6) by (simp_all add: trace_defs)
        have e: "Status s' = Status s" "RootPath s' = RootPath s"
          "\<forall>f. IsFileProcessed s f \<longrightarrow> IsFileProcessed s' f"
          using p0(22,23) kept r(7,8,9) by auto
        have f3: "c = LoopDone \<longrightarrow> chunked_files ?new = drop i files
                 \<and> (batch_chunks w (drop i files) \<noteq> [] \<longrightarrow> embed_calls ?new \<noteq> []
                       \<and> (embeds_all w \<longrightarrow> upsert_calls ?new \<noteq> []))"
        proof
          assume dn: "c = LoopDone"
          have split: "batch_chunks w (drop i files)
                       = batch_chunks w ?batch @ batch_chunks w (drop (i + FileBatchSize) files)"
            using file_batch_split [of files i] batch_chunks_append by metis
          have cf': "chunked_files ?new = drop i files"
            using cfn r(12) dn file_batch_split [of files i] by simp
          have both: "embed_calls ?new \<noteq> [] \<and> (embeds_all w \<longrightarrow> upsert_calls ?new \<noteq> [])"
            if ne: "batch_chunks w (drop i files) \<noteq> []"
          proof (cases "batch_chunks w ?batch = []")
            case True
            then have "batch_chunks w (drop (i + FileBatchSize) files) \<noteq> []"
              using ne split by simp
            then have "embed_calls rest \<noteq> []" "embeds_all w \<longrightarrow> upsert_calls rest \<noteq> []"
              using r(12) dn by blast+
            then show ?thesis using emn upn by simp
          next
            case False
            then have "embed_calls calls \<noteq> []" "embeds_all w \<longrightarrow> upsert_calls calls \<noteq> []"
              using p12 p12u by blast+
            then show ?thesis using emn upn by simp
          qed
          show "chunked_files ?new = drop i files
                 \<and> (batch_chunks w (drop i files) \<noteq> [] \<longrightarrow> embed_calls ?new \<noteq> []
                       \<and> (embeds_all w \<longrightarrow> upsert_calls ?new \<noteq> []))"
            using cf' both by blast
        qed
        have g: "i < length files \<and> c \<noteq> LoopPanicked \<longrightarrow> ?new \<noteq> [] \<and> last ?new = EvSave s'
                   \<and> (SaveFail w (butlast tr') s' = None \<longrightarrow> dk' = Inr s')"
        proof (cases "i + FileBatchSize < length files")
          case True
          then show ?thesis using r(13) by simp
        next
          case False
          then have "rest = []" "s' = s1" "dk' = dk2" using r(14) by auto
          then show ?thesis using tr2 r(1) by simp
        qed
        have h: "\<not> i < length files \<longrightarrow> ?new = [] \<and> s' = s \<and> dk' = dk \<and> c = LoopDone"
          using inb by simp
        show ?thesis
          apply (rule exI [of _ ?new])
          apply (intro conjI)
          apply (rule t)
          apply (rule a)
          apply (rule b)
          apply (rule b2)
          apply (rule d(1))
          apply (rule d(2))
          apply (rule e(1))
          apply (rule e(2))
          apply (rule e(3))
          apply (rule r(10))
          apply (rule r(11))
          apply (rule f3)
          apply (rule g)
          apply (rule h)
          done
      qed
    qed
  qed
qed


lemma IsFileProcessed_TotalFiles [simp]:
  "IsFileProcessed (s\<lparr>TotalFiles := n\<rparr>) f = IsFileProcessed s f"
  by (simp add: IsFileProcessed_def)

lemma filesToProcess_TotalFiles [simp]:
  "filesToProcess (s\<lparr>TotalFiles := n\<rparr>) allFiles = filesToProcess s allFiles"
  by (simp add: filesToProcess_def)

lemma SetStatus_completed [simp]:
  "Status (SetStatus s ''completed'') = ''completed''"
  "CompletionTimeSet (SetStatus s ''completed'')"
  "RootPath (SetStatus s ''completed'') = RootPath s"
  "IsFileProcessed (SetStatus s ''completed'') f = IsFileProcessed s f"
  by (simp_all add: SetStatus_def IsFileProcessed_def)

text \<open>The four ways a run ends once the files are collected.\<close>

lemma run_shape:
  assumes "collectFiles w dirPath extensions = Inr allFiles"
  obtains
    (nothing) dk' where
      "filesToProcess (load_or_new dk dirPath) allFiles = []"
      "IndexDirectoryIncremental w dk dirPath extensions =
         \<lparr>run_ret = Ok,
          run_state = SetStatus ((load_or_new dk dirPath)\<lparr>TotalFiles := int (length allFiles)\<rparr>)
                        ''completed'',
          run_stored = dk',
          run_trace = [EvSetStatus ''completed'',
                       EvSave (SetStatus ((load_or_new dk dirPath)
                                 \<lparr>TotalFiles := int (length allFiles)\<rparr>) ''completed'')]\<rparr>"
      "SaveFail w [EvSetStatus ''completed'']
         (SetStatus ((load_or_new dk dirPath)\<lparr>TotalFiles := int (length allFiles)\<rparr>) ''completed'')
         = None \<longrightarrow>
       dk' = Inr (SetStatus ((load_or_new dk dirPath)\<lparr>TotalFiles := int (length allFiles)\<rparr>)
                    ''completed'')"
  | (cancelled) s dk' tr where
      "filesToProcess (load_or_new dk dirPath) allFiles \<noteq> []"
      "batch_loop w (filesToProcess (load_or_new dk dirPath) allFiles) 0
         ((load_or_new dk dirPath)\<lparr>TotalFiles := int (length allFiles)\<rparr>, dk, [])
       = (LoopCancelled, s, dk', tr)"
      "IndexDirectoryIncremental w dk dirPath extensions =
         \<lparr>run_ret = Failed (Err ''context canceled''), run_state = s, run_stored = dk',
          run_trace = tr\<rparr>"
  | (panicked) s dk' tr where
      "filesToProcess (load_or_new dk dirPath) allFiles \<noteq> []"
      "batch_loop w (filesToProcess (load_or_new dk dirPath) allFiles) 0
         ((load_or_new dk dirPath)\<lparr>TotalFiles := int (length allFiles)\<rparr>, dk, [])
       = (LoopPanicked, s, dk', tr)"
      "IndexDirectoryIncremental w dk dirPath extensions =
         \<lparr>run_ret = Panicked, run_state = s, run_stored = dk', run_trace = tr\<rparr>"
  | (finished) s dk1 tr dk2 where
      "filesToProcess (load_or_new dk dirPath) allFiles \<noteq> []"
      "batch_loop w (filesToProcess (load_or_new dk dirPath) allFiles) 0
         ((load_or_new dk dirPath)\<lparr>TotalFiles := int (length allFiles)\<rparr>, dk, [])
       = (LoopDone, s, dk1, tr)"
      "IndexDirectoryIncremental w dk dirPath extensions =
         \<lparr>run_ret = Ok, run_state = SetStatus s ''completed'', run_stored = dk2,
          run_trace = tr @ [EvSetStatus ''completed'', EvSave (SetStatus s ''completed'')]\<rparr>"
      "SaveFail w (tr @ [EvSetStatus ''completed'']) (SetStatus s ''completed'') = None \<longrightarrow>
       dk2 = Inr (SetStatus s ''completed'')"
proof -
  let ?st1 = "(load_or_new dk dirPath)\<lparr>TotalFiles := int (length allFiles)\<rparr>"
  let ?todo = "filesToProcess (load_or_new dk dirPath) allFiles"
  show ?thesis
  proof (cases "?todo = []")
    case True
    obtain e dk' tr' where sv: "Save w (SetStatus ?st1 ''completed'') dk [EvSetStatus ''completed'']
                                = (e, dk', tr')"
      by (metis prod_cases3)
    have tr': "tr' = [EvSetStatus ''completed''] @ [EvSave (SetStatus ?st1 ''completed'')]"
      and ok: "SaveFail w [EvSetStatus ''completed''] (SetStatus ?st1 ''completed'') = None
               \<longrightarrow> dk' = Inr (SetStatus ?st1 ''completed'')"
      using Save_effect [OF sv] by auto
    have "IndexDirectoryIncremental w dk dirPath extensions =
            \<lparr>run_ret = Ok, run_state = SetStatus ?st1 ''completed'', run_stored = dk',
             run_trace = tr'\<rparr>"
      using assms True sv by (simp add: IndexDirectoryIncremental_def Let_def)
    then have eq: "IndexDirectoryIncremental w dk dirPath extensions =
            \<lparr>run_ret = Ok, run_state = SetStatus ?st1 ''completed'', run_stored = dk',
             run_trace = [EvSetStatus ''completed'', EvSave (SetStatus ?st1 ''completed'')]\<rparr>"
      using tr' by simp
    show ?thesis by (rule that(1) [OF True eq ok])
  next
    case False
    obtain c s dk1 tr where bl: "batch_loop w ?todo 0 (?st1, dk, []) = (c, s, dk1, tr)"
      by (metis prod_cases4)
    show ?thesis
    proof (cases c)
      case LoopCancelled
      have eq: "IndexDirectoryIncremental w dk dirPath extensions =
              \<lparr>run_ret = Failed (Err ''context canceled''), run_state = s, run_stored = dk1,
               run_trace = tr\<rparr>"
        using assms False bl LoopCancelled by (simp add: IndexDirectoryIncremental_def Let_def)
      have bl': "batch_loop w ?todo 0 (?st1, dk, []) = (LoopCancelled, s, dk1, tr)"
        using bl LoopCancelled by simp
      show ?thesis by (rule that(2) [OF False bl' eq])
    next
      case LoopPanicked
      have eq: "IndexDirectoryIncremental w dk dirPath extensions =
              \<lparr>run_ret = Panicked, run_state = s, run_stored = dk1, run_trace = tr\<rparr>"
        using assms False bl LoopPanicked by (simp add: IndexDirectoryIncremental_def Let_def)
      have bl': "batch_loop w ?todo 0 (?st1, dk, []) = (LoopPanicked, s, dk1, tr)"
        using bl LoopPanicked by simp
      show ?thesis by (rule that(3) [OF False bl' eq])
    next
      case LoopDone
      obtain e dk2 tr' where sv: "Save w (SetStatus s ''completed'') dk1 (tr @ [EvSetStatus ''completed''])
                                = (e, dk2, tr')"
        by (metis prod_cases3)
      have tr': "tr' = (tr @ [EvSetStatus ''completed'']) @ [EvSave (SetStatus s ''completed'')]"
        and ok: "SaveFail w (tr @ [EvSetStatus ''completed'']) (SetStatus s ''completed'') = None
               \<longrightarrow> dk2 = Inr (SetStatus s ''completed'')"
        using Save_effect [OF sv] by auto
      have "IndexDirectoryIncremental w dk dirPath extensions =
              \<lparr>run_ret = Ok, run_state = SetStatus s ''completed'', run_stored = dk2,
               run_trace = tr'\<rparr>"
        using assms False bl LoopDone sv by (simp add: IndexDirectoryIncremental_def Let_def)
      then have eq: "IndexDirectoryIncremental w dk dirPath extensions =
              \<lparr>run_ret = Ok, run_state = SetStatus s ''completed'', run_stored = dk2,
               run_trace = tr @ [EvSetStatus ''completed'', EvSave (SetStatus s ''completed'')]\<rparr>"
        using tr' by simp
      have bl': "batch_loop w ?todo 0 (?st1, dk, []) = (LoopDone, s, dk1, tr)"
        using bl LoopDone by simp
      show ?thesis by (rule that(4) [OF False bl' eq ok])
    qed
  qed
qed


lemma NewIndexingState_unprocessed [simp]: "\<not> IsFileProcessed (NewIndexingState dirPath) f"
  by (simp add: NewIndexingState_def IsFileProcessed_def)

lemma filesToProcess_New [simp]: "filesToProcess (NewIndexingState dirPath) allFiles = allFiles"
  by (simp add: filesToProcess_def)

lemma filesToProcess_all_done:
  "\<forall>f \<in> set allFiles. IsFileProcessed st f \<Longrightarrow> filesToProcess st allFiles = []"
  by (induction allFiles) (simp_all add: filesToProcess_def)


lemmas run_eval =
  IndexDirectoryIncremental_def collectFiles_def sort_files_def load_or_new_def
  filepath_Join_def filepath_Clean_def
  filesToProcess_def IsFileProcessed_def SetStatus_def Save_def batch_loop.simps
  FileBatchSize_def processBatch_def indexBatch_def index_chunks.simps ChunkBatchSize_def
  MarkFileProcessed_def MarkFileFailed_def NewIndexingState_def repo_world_def
  skipDirs_def filepath_Base_def strings_HasPrefix_def priorityDirs_def chunk_eval trace_defs

lemma collect_repo: "collectFiles repo_world ''/repo'' [''.go''] = Inr [''/repo/a.go'']"
  by (simp add: collectFiles_def sort_files_def repo_world_def walk_eval)

lemma first_run_result:
  "run_ret first_run = Ok \<and> Status (run_state first_run) = ''completed''
   \<and> length (embed_calls (run_trace first_run)) = 1
   \<and> (\<exists>st. run_stored first_run = Inr st \<and> Status st = ''completed'' \<and> RootPath st = ''/repo''
          \<and> IsFileProcessed st ''/repo/a.go'')"
  by (simp add: first_run_def run_eval)

lemma calls_append:
  "chunked_files (a @ b) = chunked_files a @ chunked_files b"
  "embed_calls (a @ b) = embed_calls a @ embed_calls b"
  "upsert_calls (a @ b) = upsert_calls a @ upsert_calls b"
  "delete_calls (a @ b) = delete_calls a @ delete_calls b"
  "status_calls (a @ b) = status_calls a @ status_calls b"
  "save_calls (a @ b) = save_calls a @ save_calls b"
  "mark_calls (a @ b) = mark_calls a @ mark_calls b"
  by (simp_all add: trace_defs)

lemma calls_final:
  "chunked_files [EvSetStatus st, EvSave s] = []"
  "embed_calls [EvSetStatus st, EvSave s] = []"
  "upsert_calls [EvSetStatus st, EvSave s] = []"
  "delete_calls [EvSetStatus st, EvSave s] = []"
  "status_calls [EvSetStatus st, EvSave s] = [st]"
  "chunked_files [] = []" "embed_calls [] = []" "upsert_calls [] = []"
  "delete_calls [] = []" "status_calls [] = []"
  by (simp_all add: trace_defs)

lemma run_facts:
  fixes dk :: disk
  assumes col: "collectFiles w dirPath extensions = Inr allFiles"
  defines "r \<equiv> IndexDirectoryIncremental w dk dirPath extensions"
    and "todo \<equiv> filesToProcess (load_or_new dk dirPath) allFiles"
  shows "set (chunked_files (run_trace r)) \<subseteq> set todo"
    and "\<forall>cs \<in> set (embed_calls (run_trace r)). \<forall>ch \<in> set cs. FilePath ch \<in> set todo"
    and "\<forall>points \<in> set (upsert_calls (run_trace r)). \<forall>pt \<in> set points.
           FilePath (Payload pt) \<in> set todo"
    and "delete_calls (run_trace r) = []"
    and "set (status_calls (run_trace r)) \<subseteq> {''completed''}"
    and "\<forall>f. IsFileProcessed (load_or_new dk dirPath) f \<longrightarrow> IsFileProcessed (run_state r) f"
    and "run_ret r = Ok
         \<or> (run_ret r = Failed (Err ''context canceled'') \<and> (\<exists>tr0. CtxDone w tr0))
         \<or> (run_ret r = Panicked \<and> \<not> never_short w)"
    and "run_ret r = Ok \<longrightarrow>
           Status (run_state r) = ''completed'' \<and> CompletionTimeSet (run_state r)
           \<and> status_calls (run_trace r) = [''completed'']
           \<and> run_trace r \<noteq> [] \<and> last (run_trace r) = EvSave (run_state r)
           \<and> (SaveFail w (butlast (run_trace r)) (run_state r) = None
                 \<longrightarrow> run_stored r = Inr (run_state r))
           \<and> chunked_files (run_trace r) = todo
           \<and> (batch_chunks w todo \<noteq> [] \<longrightarrow> embed_calls (run_trace r) \<noteq> []
                 \<and> (embeds_all w \<longrightarrow> upsert_calls (run_trace r) \<noteq> []))"
    and "todo = [] \<longrightarrow> run_ret r = Ok \<and> embed_calls (run_trace r) = []
           \<and> upsert_calls (run_trace r) = [] \<and> chunked_files (run_trace r) = []"
    and "run_ret r \<noteq> Ok \<longrightarrow> status_calls (run_trace r) = []
           \<and> Status (run_state r) = Status (load_or_new dk dirPath)"
proof -
  let ?st1 = "(load_or_new dk dirPath)\<lparr>TotalFiles := int (length allFiles)\<rparr>"
  obtain c s dk1 tr where bl: "batch_loop w todo 0 (?st1, dk, []) = (c, s, dk1, tr)"
    by (metis prod_cases4)
  have empty: "todo = [] \<longrightarrow> c = LoopDone \<and> s = ?st1 \<and> dk1 = dk \<and> tr = []"
    using bl by (auto simp: batch_loop.simps)
  have shape: "(c = LoopCancelled \<and> r = \<lparr>run_ret = Failed (Err ''context canceled''), run_state = s,
                         run_stored = dk1, run_trace = tr\<rparr>)
             \<or> (c = LoopPanicked \<and> r = \<lparr>run_ret = Panicked, run_state = s,
                         run_stored = dk1, run_trace = tr\<rparr>)
             \<or> (c = LoopDone \<and> (\<exists>dk2. r = \<lparr>run_ret = Ok, run_state = SetStatus s ''completed'',
                               run_stored = dk2,
                               run_trace = tr @ [EvSetStatus ''completed'',
                                                 EvSave (SetStatus s ''completed'')]\<rparr>
                   \<and> (SaveFail w (tr @ [EvSetStatus ''completed'']) (SetStatus s ''completed'')
                         = None \<longrightarrow> dk2 = Inr (SetStatus s ''completed''))))"
  proof (rule run_shape [OF col, of dk])
    fix dk'
    assume a: "filesToProcess (load_or_new dk dirPath) allFiles = []"
      "IndexDirectoryIncremental w dk dirPath extensions =
         \<lparr>run_ret = Ok, run_state = SetStatus ?st1 ''completed'', run_stored = dk',
          run_trace = [EvSetStatus ''completed'', EvSave (SetStatus ?st1 ''completed'')]\<rparr>"
      "SaveFail w [EvSetStatus ''completed''] (SetStatus ?st1 ''completed'') = None \<longrightarrow>
       dk' = Inr (SetStatus ?st1 ''completed'')"
    have e: "c = LoopDone" "s = ?st1" "tr = []" using empty a(1) by (simp_all add: todo_def)
    show ?thesis using a(2,3) e by (simp add: r_def)
  next
    fix s' dk' tr'
    assume a: "filesToProcess (load_or_new dk dirPath) allFiles \<noteq> []"
      "batch_loop w (filesToProcess (load_or_new dk dirPath) allFiles) 0 (?st1, dk, [])
       = (LoopCancelled, s', dk', tr')"
      "IndexDirectoryIncremental w dk dirPath extensions =
         \<lparr>run_ret = Failed (Err ''context canceled''), run_state = s', run_stored = dk',
          run_trace = tr'\<rparr>"
    have "c = LoopCancelled" "s = s'" "dk1 = dk'" "tr = tr'" using bl a(2) by (simp_all add: todo_def)
    then show ?thesis using a(3) by (simp add: r_def)
  next
    fix s' dk' tr'
    assume a: "filesToProcess (load_or_new dk dirPath) allFiles \<noteq> []"
      "batch_loop w (filesToProcess (load_or_new dk dirPath) allFiles) 0 (?st1, dk, [])
       = (LoopPanicked, s', dk', tr')"
      "IndexDirectoryIncremental w dk dirPath extensions =
         \<lparr>run_ret = Panicked, run_state = s', run_stored = dk', run_trace = tr'\<rparr>"
    have "c = LoopPanicked" "s = s'" "dk1 = dk'" "tr = tr'" using bl a(2) by (simp_all add: todo_def)
    then show ?thesis using a(3) by (simp add: r_def)
  next
    fix s' dk' tr' dk2
    assume a: "filesToProcess (load_or_new dk dirPath) allFiles \<noteq> []"
      "batch_loop w (filesToProcess (load_or_new dk dirPath) allFiles) 0 (?st1, dk, [])
       = (LoopDone, s', dk', tr')"
      "IndexDirectoryIncremental w dk dirPath extensions =
         \<lparr>run_ret = Ok, run_state = SetStatus s' ''completed'', run_stored = dk2,
          run_trace = tr' @ [EvSetStatus ''completed'', EvSave (SetStatus s' ''completed'')]\<rparr>"
      "SaveFail w (tr' @ [EvSetStatus ''completed'']) (SetStatus s' ''completed'') = None \<longrightarrow>
       dk2 = Inr (SetStatus s' ''completed'')"
    have "c = LoopDone" "s = s'" "dk1 = dk'" "tr = tr'" using bl a(2) by (simp_all add: todo_def)
    then show ?thesis using a(3,4) by (simp add: r_def)
  qed
  from batch_loop_effect [OF bl] obtain new where b:
    "tr = [] @ new"
    "set (chunked_files new) \<subseteq> set todo"
    "\<forall>cs \<in> set (embed_calls new). \<forall>ch \<in> set cs. FilePath ch \<in> set todo"
    "\<forall>points \<in> set (upsert_calls new). \<forall>pt \<in> set points. FilePath (Payload pt) \<in> set todo"
    "status_calls new = []" "delete_calls new = []"
    "Status s = Status ?st1" "RootPath s = RootPath ?st1"
    "\<forall>f. IsFileProcessed ?st1 f \<longrightarrow> IsFileProcessed s f"
    "c = LoopCancelled \<longrightarrow> (\<exists>tr0. CtxDone w tr0)"
    "c = LoopPanicked \<longrightarrow> \<not> never_short w"
    "c = LoopDone \<longrightarrow> chunked_files new = drop 0 todo
            \<and> (batch_chunks w (drop 0 todo) \<noteq> [] \<longrightarrow> embed_calls new \<noteq> []
                  \<and> (embeds_all w \<longrightarrow> upsert_calls new \<noteq> []))"
    "0 < length todo \<and> c \<noteq> LoopPanicked \<longrightarrow> new \<noteq> [] \<and> last new = EvSave s
            \<and> (SaveFail w (butlast tr) s = None \<longrightarrow> dk1 = Inr s)"
    "\<not> 0 < length todo \<longrightarrow> new = [] \<and> s = ?st1 \<and> dk1 = dk \<and> c = LoopDone"
    by (elim exE conjE) (rule that; assumption)
  have tr: "tr = new" using b(1) by simp
  have trace: "run_trace r = tr \<or> run_trace r = tr @ [EvSetStatus ''completed'',
                                                      EvSave (SetStatus s ''completed'')]"
    using shape by auto
  show "set (chunked_files (run_trace r)) \<subseteq> set todo"
    using trace b(2) tr by (auto simp: calls_append calls_final)
  show "\<forall>cs \<in> set (embed_calls (run_trace r)). \<forall>ch \<in> set cs. FilePath ch \<in> set todo"
    using trace b(3) tr by (auto simp: calls_append calls_final)
  show "\<forall>points \<in> set (upsert_calls (run_trace r)). \<forall>pt \<in> set points.
           FilePath (Payload pt) \<in> set todo"
    using trace b(4) tr by (auto simp: calls_append calls_final)
  show "delete_calls (run_trace r) = []"
    using trace b(6) tr by (auto simp: calls_append calls_final)
  show "set (status_calls (run_trace r)) \<subseteq> {''completed''}"
    using trace b(5) tr by (auto simp: calls_append calls_final)
  show "\<forall>f. IsFileProcessed (load_or_new dk dirPath) f \<longrightarrow> IsFileProcessed (run_state r) f"
    using shape b(9) by auto
  show "run_ret r = Ok
         \<or> (run_ret r = Failed (Err ''context canceled'') \<and> (\<exists>tr0. CtxDone w tr0))
         \<or> (run_ret r = Panicked \<and> \<not> never_short w)"
    using shape b(10,11) by auto
  show "run_ret r = Ok \<longrightarrow>
           Status (run_state r) = ''completed'' \<and> CompletionTimeSet (run_state r)
           \<and> status_calls (run_trace r) = [''completed'']
           \<and> run_trace r \<noteq> [] \<and> last (run_trace r) = EvSave (run_state r)
           \<and> (SaveFail w (butlast (run_trace r)) (run_state r) = None
                 \<longrightarrow> run_stored r = Inr (run_state r))
           \<and> chunked_files (run_trace r) = todo
           \<and> (batch_chunks w todo \<noteq> [] \<longrightarrow> embed_calls (run_trace r) \<noteq> []
                 \<and> (embeds_all w \<longrightarrow> upsert_calls (run_trace r) \<noteq> []))"
  proof
    assume none: "run_ret r = Ok"
    then obtain dk2 where f: "c = LoopDone"
      "r = \<lparr>run_ret = Ok, run_state = SetStatus s ''completed'', run_stored = dk2,
            run_trace = tr @ [EvSetStatus ''completed'', EvSave (SetStatus s ''completed'')]\<rparr>"
      "SaveFail w (tr @ [EvSetStatus ''completed'']) (SetStatus s ''completed'') = None
         \<longrightarrow> dk2 = Inr (SetStatus s ''completed'')"
      using shape by auto
    have bt: "butlast (tr @ [EvSetStatus ''completed'', EvSave (SetStatus s ''completed'')])
              = tr @ [EvSetStatus ''completed'']"
      by (simp add: butlast_append)
    have cf: "chunked_files new = todo"
      "batch_chunks w todo \<noteq> [] \<longrightarrow> embed_calls new \<noteq> []
          \<and> (embeds_all w \<longrightarrow> upsert_calls new \<noteq> [])"
      using b(12) f(1) by simp_all
    show "Status (run_state r) = ''completed'' \<and> CompletionTimeSet (run_state r)
           \<and> status_calls (run_trace r) = [''completed'']
           \<and> run_trace r \<noteq> [] \<and> last (run_trace r) = EvSave (run_state r)
           \<and> (SaveFail w (butlast (run_trace r)) (run_state r) = None
                 \<longrightarrow> run_stored r = Inr (run_state r))
           \<and> chunked_files (run_trace r) = todo
           \<and> (batch_chunks w todo \<noteq> [] \<longrightarrow> embed_calls (run_trace r) \<noteq> []
                 \<and> (embeds_all w \<longrightarrow> upsert_calls (run_trace r) \<noteq> []))"
      using f(2,3) bt cf b(5) tr by (simp add: calls_append calls_final)
  qed
  show "todo = [] \<longrightarrow> run_ret r = Ok \<and> embed_calls (run_trace r) = []
           \<and> upsert_calls (run_trace r) = [] \<and> chunked_files (run_trace r) = []"
    using shape empty by (auto simp: calls_append calls_final)
  show "run_ret r \<noteq> Ok \<longrightarrow> status_calls (run_trace r) = []
           \<and> Status (run_state r) = Status (load_or_new dk dirPath)"
    using shape b(5,7) tr by auto
qed


lemma run_collect_failed:
  assumes "collectFiles w dirPath extensions = Inl e"
  shows "run_trace (IndexDirectoryIncremental w dk dirPath extensions) = []"
    and "run_ret (IndexDirectoryIncremental w dk dirPath extensions)
           = Failed (Err (''failed to collect files: '' @ Error e))"
    and "run_state (IndexDirectoryIncremental w dk dirPath extensions) = load_or_new dk dirPath"
  using assms by (simp_all add: IndexDirectoryIncremental_def)

lemmas run_eval2 =
  run_eval broken_world_def two_world_def resumed_state_def short_world_def

text \<open>
  A run that has collected its files ends in one of three ways: it returns nil, it
  returns the cancellation error, or it panics in \<open>indexBatch\<close>. If the context is never
  done and the embedder never answers with fewer vectors than texts, the run returns nil
  with status \<open>completed\<close>: the status is set once, to \<open>completed\<close>, the last call of the run
  is the \<open>Save\<close> of the final state, and when that \<open>Save\<close> succeeds the state file holds the
  final state. Errors of the embedder, the store or the files do not matter. A run that
  does not return nil sets no status at all, and no run sets the status \<open>failed\<close>.
\<close>

lemma run_completed_unless:
  fixes w :: world and dk :: disk and dirPath :: string and extensions :: "string list"
  defines "r \<equiv> IndexDirectoryIncremental w dk dirPath extensions"
  shows "((\<exists>allFiles. collectFiles w dirPath extensions = Inr allFiles)
            \<and> (\<forall>tr. \<not> CtxDone w tr) \<and> never_short w \<longrightarrow>
          run_ret r = Ok
          \<and> Status (run_state r) = ''completed'' \<and> CompletionTimeSet (run_state r)
          \<and> status_calls (run_trace r) = [''completed'']
          \<and> run_trace r \<noteq> [] \<and> last (run_trace r) = EvSave (run_state r)
          \<and> (SaveFail w (butlast (run_trace r)) (run_state r) = None
                \<longrightarrow> run_stored r = Inr (run_state r)))
       \<and> (run_ret r \<noteq> Ok \<longrightarrow> status_calls (run_trace r) = [])
       \<and> ''failed'' \<notin> set (status_calls (run_trace r))"
proof (cases "collectFiles w dirPath extensions")
  case (Inl e)
  then show ?thesis
    using run_collect_failed(1) [OF Inl, of dk] by (simp add: r_def calls_final)
next
  case (Inr allFiles)
  have nf: "''failed'' \<notin> set (status_calls (run_trace r))"
    using run_facts(5) [OF Inr, of dk] by (auto simp: r_def)
  have ns: "run_ret r \<noteq> Ok \<longrightarrow> status_calls (run_trace r) = []"
    using run_facts(10) [OF Inr, of dk] by (simp add: r_def)
  have "run_ret r = Ok
          \<and> Status (run_state r) = ''completed'' \<and> CompletionTimeSet (run_state r)
          \<and> status_calls (run_trace r) = [''completed'']
          \<and> run_trace r \<noteq> [] \<and> last (run_trace r) = EvSave (run_state r)
          \<and> (SaveFail w (butlast (run_trace r)) (run_state r) = None
                \<longrightarrow> run_stored r = Inr (run_state r))"
    if "\<forall>tr. \<not> CtxDone w tr" "never_short w"
  proof -
    have none: "run_ret r = Ok"
      using run_facts(7) [OF Inr, of dk] that by (auto simp: r_def)
    then show ?thesis
      using run_facts(8) [OF Inr, of dk] by (simp add: r_def)
  qed
  then show ?thesis using nf ns by blast
qed

text \<open>
  The embedder of the repository answers short with no error: for 20 texts of 6000 bytes
  the estimate is 30500 tokens, the sub-batch is cut to 18 texts, the loop advances
  by 20 and ends, and 18 vectors are returned, although the server has answered every
  request with a vector for each text.
\<close>

lemma LocalEmbedder_short_answer:
  "LocalEmbedder_EmbedBatch (\<lambda>texts. Inr (map (\<lambda>t. []) texts))
     (replicate 20 (replicate 6000 CHR ''x''))
   = Inr (replicate 18 [])"
  by (simp add: LocalEmbedder_EmbedBatch_def embed_sub_batches.simps estimateTokens_def
        maxBatchSize_def maxTokensHint_def sum_list_replicate Let_def)

lemma LocalEmbedder_not_never_short:
  assumes "EmbedBatch w = (\<lambda>tr. LocalEmbedder_EmbedBatch (\<lambda>texts. Inr (map (\<lambda>t. []) texts)))"
  shows "\<not> never_short w"
proof
  assume "never_short w"
  moreover have "EmbedBatch w [] (replicate 20 (replicate 6000 CHR ''x'')) = Inr (replicate 18 [])"
    using assms LocalEmbedder_short_answer by simp
  ultimately have "length (replicate 20 (replicate 6000 CHR ''x'')) \<le> length (replicate 18 ([] :: vector))"
    unfolding never_short_def by blast
  then show False by simp
qed

text \<open>
  C10. The claim holds of a run that returns (lemma \<open>run_completed_unless\<close>), but a run
  need not return: \<open>indexBatch\<close> reads \<open>embeddings[i]\<close> for every chunk without comparing
  the lengths, and when the embedder answers with fewer vectors than texts, and no error,
  the run panics. Over the tree with the single file \<open>/repo/a.go\<close>, with no state file
  and a context that is never done, the files are collected, the run panics in its first
  batch, no status is set, nothing is saved, and the state in memory is still in progress.
  The comment in the loop reads \<open>Continue with next batch instead of failing completely\<close>.
  The embedder here answers with one vector fewer than the texts; the embedder of the
  repository answers short too on large batches (lemma \<open>LocalEmbedder_short_answer\<close>).
\<close>

theorem run_panics_on_short_answer:
  "collectFiles short_world ''/repo'' [''.go''] = Inr [''/repo/a.go'']
   \<and> (\<forall>tr. \<not> CtxDone short_world tr)
   \<and> run_ret (IndexDirectoryIncremental short_world (Inl (Err ''no state file'')) ''/repo'' [''.go''])
       = Panicked
   \<and> status_calls (run_trace (IndexDirectoryIncremental short_world (Inl (Err ''no state file''))
                      ''/repo'' [''.go''])) = []
   \<and> save_calls (run_trace (IndexDirectoryIncremental short_world (Inl (Err ''no state file''))
                      ''/repo'' [''.go''])) = []
   \<and> upsert_calls (run_trace (IndexDirectoryIncremental short_world (Inl (Err ''no state file''))
                      ''/repo'' [''.go''])) = []
   \<and> length (embed_calls (run_trace (IndexDirectoryIncremental short_world
                      (Inl (Err ''no state file'')) ''/repo'' [''.go'']))) = 1
   \<and> Status (run_state (IndexDirectoryIncremental short_world (Inl (Err ''no state file''))
                      ''/repo'' [''.go''])) = ''in_progress''
   \<and> run_stored (IndexDirectoryIncremental short_world (Inl (Err ''no state file''))
                      ''/repo'' [''.go'']) = Inl (Err ''no state file'')"
proof -
  have col: "collectFiles short_world ''/repo'' [''.go''] = Inr [''/repo/a.go'']"
    by (simp add: collectFiles_def sort_files_def short_world_def repo_world_def walk_eval)
  have ctx: "\<forall>tr. \<not> CtxDone short_world tr"
    by (simp add: short_world_def repo_world_def calm_world_def)
  show ?thesis
    using col ctx by (simp add: run_eval2)
qed



text \<open>
  C1, as stated, fails: a state file with status \<open>completed\<close> is not resumed. Over the tree
  with the single file \<open>/repo/a.go\<close> the first run ends with status \<open>completed\<close>, and the
  second run over the unchanged tree, started from the state file of the first, makes
  one embedding call and one upsert call again.
\<close>

theorem second_run_embeds_again:
  "run_ret first_run = Ok \<and> Status (run_state first_run) = ''completed''
   \<and> run_ret second_run = Ok \<and> Status (run_state second_run) = ''completed''
   \<and> length (embed_calls (run_trace second_run)) = 1
   \<and> length (upsert_calls (run_trace second_run)) = 1"
  by (simp add: second_run_def first_run_def run_eval)

text \<open>
  C1, amended. When the files are collected: a run that resumes a state for the same
  root whose status is not \<open>completed\<close> and in which every candidate is marked processed
  makes no embedding call, no upsert or delete call, chunks no file and ends with status
  \<open>completed\<close>. A run started on a state file with status \<open>completed\<close> starts from a fresh
  state. It returns nil if the context is never done and the embedder never answers with
  fewer vectors than texts; and when it returns nil it has chunked every candidate again,
  has made an embedding call if a candidate has chunks, and an upsert call too if the
  embedder answers every call with a vector for each text, and its status is
  \<open>completed\<close>.
\<close>

theorem run_nothing_left:
  fixes dk :: disk
  assumes "collectFiles w dirPath extensions = Inr allFiles"
  defines "r \<equiv> IndexDirectoryIncremental w dk dirPath extensions"
  shows "(\<forall>st. dk = Inr st \<and> RootPath st = dirPath \<and> Status st \<noteq> ''completed''
               \<and> (\<forall>f \<in> set allFiles. IsFileProcessed st f) \<longrightarrow>
            run_ret r = Ok \<and> Status (run_state r) = ''completed''
          \<and> embed_calls (run_trace r) = [] \<and> upsert_calls (run_trace r) = []
          \<and> delete_calls (run_trace r) = [] \<and> chunked_files (run_trace r) = [])
       \<and> (\<forall>st. dk = Inr st \<and> Status st = ''completed'' \<longrightarrow>
            load_or_new dk dirPath = NewIndexingState dirPath
          \<and> ((\<forall>tr. \<not> CtxDone w tr) \<and> never_short w \<longrightarrow> run_ret r = Ok)
          \<and> (run_ret r = Ok \<longrightarrow>
                Status (run_state r) = ''completed''
              \<and> chunked_files (run_trace r) = allFiles
              \<and> (batch_chunks w allFiles \<noteq> [] \<longrightarrow> embed_calls (run_trace r) \<noteq> []
                    \<and> (embeds_all w \<longrightarrow> upsert_calls (run_trace r) \<noteq> []))))"
proof -
  have first: "run_ret r = Ok \<and> Status (run_state r) = ''completed''
          \<and> embed_calls (run_trace r) = [] \<and> upsert_calls (run_trace r) = []
          \<and> delete_calls (run_trace r) = [] \<and> chunked_files (run_trace r) = []"
    if a: "dk = Inr st \<and> RootPath st = dirPath \<and> Status st \<noteq> ''completed''
               \<and> (\<forall>f \<in> set allFiles. IsFileProcessed st f)" for st
  proof -
    from a have "load_or_new dk dirPath = st" by (simp add: load_or_new_def)
    then have todo: "filesToProcess (load_or_new dk dirPath) allFiles = []"
      using a filesToProcess_all_done by simp
    have none: "run_ret r = Ok" "embed_calls (run_trace r) = []" "upsert_calls (run_trace r) = []"
      "chunked_files (run_trace r) = []"
      using run_facts(9) [OF assms(1), of dk] todo by (simp_all add: r_def)
    have "Status (run_state r) = ''completed''"
      using run_facts(8) [OF assms(1), of dk] none(1) by (simp add: r_def)
    moreover have "delete_calls (run_trace r) = []"
      using run_facts(4) [OF assms(1), of dk] by (simp add: r_def)
    ultimately show ?thesis
      using none by simp
  qed
  have second: "load_or_new dk dirPath = NewIndexingState dirPath
          \<and> ((\<forall>tr. \<not> CtxDone w tr) \<and> never_short w \<longrightarrow> run_ret r = Ok)
          \<and> (run_ret r = Ok \<longrightarrow>
                Status (run_state r) = ''completed''
              \<and> chunked_files (run_trace r) = allFiles
              \<and> (batch_chunks w allFiles \<noteq> [] \<longrightarrow> embed_calls (run_trace r) \<noteq> []
                    \<and> (embeds_all w \<longrightarrow> upsert_calls (run_trace r) \<noteq> [])))"
    if a: "dk = Inr st \<and> Status st = ''completed''" for st
  proof -
    from a have fresh: "load_or_new dk dirPath = NewIndexingState dirPath"
      by (simp add: load_or_new_def)
    then have todo: "filesToProcess (load_or_new dk dirPath) allFiles = allFiles" by simp
    have ret: "(\<forall>tr. \<not> CtxDone w tr) \<and> never_short w \<longrightarrow> run_ret r = Ok"
      using run_facts(7) [OF assms(1), of dk] by (auto simp: r_def)
    have fin: "run_ret r = Ok \<longrightarrow>
                Status (run_state r) = ''completed''
              \<and> chunked_files (run_trace r) = allFiles
              \<and> (batch_chunks w allFiles \<noteq> [] \<longrightarrow> embed_calls (run_trace r) \<noteq> []
                    \<and> (embeds_all w \<longrightarrow> upsert_calls (run_trace r) \<noteq> []))"
      using run_facts(8) [OF assms(1), of dk] todo by (simp add: r_def)
    show ?thesis using fresh ret fin by blast
  qed
  show ?thesis using first second by blast
qed

theorem run_nothing_left_witness:
  "collectFiles repo_world ''/repo'' [''.go''] = Inr [''/repo/a.go'']
   \<and> RootPath resumed_state = ''/repo'' \<and> Status resumed_state \<noteq> ''completed''
   \<and> IsFileProcessed resumed_state ''/repo/a.go''
   \<and> run_ret (IndexDirectoryIncremental repo_world (Inr resumed_state) ''/repo'' [''.go'']) = Ok
   \<and> Status (run_state (IndexDirectoryIncremental repo_world (Inr resumed_state) ''/repo'' [''.go'']))
       = ''completed''
   \<and> embed_calls (run_trace (IndexDirectoryIncremental repo_world (Inr resumed_state) ''/repo''
        [''.go''])) = []
   \<and> upsert_calls (run_trace (IndexDirectoryIncremental repo_world (Inr resumed_state) ''/repo''
        [''.go''])) = []
   \<and> Status (SetStatus resumed_state ''completed'') = ''completed''
   \<and> (\<forall>tr. \<not> CtxDone repo_world tr) \<and> never_short repo_world \<and> embeds_all repo_world
   \<and> batch_chunks repo_world [''/repo/a.go''] \<noteq> []
   \<and> run_ret (IndexDirectoryIncremental repo_world (Inr (SetStatus resumed_state ''completed''))
        ''/repo'' [''.go'']) = Ok
   \<and> Status (run_state (IndexDirectoryIncremental repo_world
        (Inr (SetStatus resumed_state ''completed'')) ''/repo'' [''.go''])) = ''completed''
   \<and> chunked_files (run_trace (IndexDirectoryIncremental repo_world
        (Inr (SetStatus resumed_state ''completed'')) ''/repo'' [''.go''])) = [''/repo/a.go'']
   \<and> embed_calls (run_trace (IndexDirectoryIncremental repo_world
        (Inr (SetStatus resumed_state ''completed'')) ''/repo'' [''.go''])) \<noteq> []
   \<and> upsert_calls (run_trace (IndexDirectoryIncremental repo_world
        (Inr (SetStatus resumed_state ''completed'')) ''/repo'' [''.go''])) \<noteq> []"
proof -
  have res: "RootPath resumed_state = ''/repo''" "Status resumed_state \<noteq> ''completed''"
    "IsFileProcessed resumed_state ''/repo/a.go''"
    by (simp_all add: resumed_state_def NewIndexingState_def)
  have compl: "Status (SetStatus resumed_state ''completed'') = ''completed''" by simp
  have ctx: "\<forall>tr. \<not> CtxDone repo_world tr"
    by (simp add: repo_world_def calm_world_def)
  have ns: "never_short repo_world"
    by (auto simp: never_short_def repo_world_def calm_world_def)
  have ea: "embeds_all repo_world"
    by (simp add: embeds_all_def repo_world_def calm_world_def)
  have some: "batch_chunks repo_world [''/repo/a.go''] \<noteq> []"
    by (simp add: batch_chunks_def file_chunks_def repo_world_def chunk_eval)
  have one: "run_ret (IndexDirectoryIncremental repo_world (Inr resumed_state) ''/repo'' [''.go'']) = Ok
     \<and> Status (run_state (IndexDirectoryIncremental repo_world (Inr resumed_state) ''/repo'' [''.go'']))
         = ''completed''
     \<and> embed_calls (run_trace (IndexDirectoryIncremental repo_world (Inr resumed_state) ''/repo''
          [''.go''])) = []
     \<and> upsert_calls (run_trace (IndexDirectoryIncremental repo_world (Inr resumed_state) ''/repo''
          [''.go''])) = []"
    using run_nothing_left [OF collect_repo, where dk = "Inr resumed_state"] res by simp
  have two: "run_ret (IndexDirectoryIncremental repo_world (Inr (SetStatus resumed_state ''completed''))
        ''/repo'' [''.go'']) = Ok
   \<and> Status (run_state (IndexDirectoryIncremental repo_world
        (Inr (SetStatus resumed_state ''completed'')) ''/repo'' [''.go''])) = ''completed''
   \<and> chunked_files (run_trace (IndexDirectoryIncremental repo_world
        (Inr (SetStatus resumed_state ''completed'')) ''/repo'' [''.go''])) = [''/repo/a.go'']
   \<and> embed_calls (run_trace (IndexDirectoryIncremental repo_world
        (Inr (SetStatus resumed_state ''completed'')) ''/repo'' [''.go''])) \<noteq> []
   \<and> upsert_calls (run_trace (IndexDirectoryIncremental repo_world
        (Inr (SetStatus resumed_state ''completed'')) ''/repo'' [''.go''])) \<noteq> []"
    using run_nothing_left [OF collect_repo, where dk = "Inr (SetStatus resumed_state ''completed'')"]
      compl ctx ns ea some
    by simp
  show ?thesis
    using collect_repo res compl ctx ns ea some one two by blast
qed

end
